theory Spec2Isabelle
  imports Complex_Main "HOL-Library.Word" "HOL-Library.Signed_Division" "HOL-Library.Multiset"
begin

section \<open>Constants of the renderer\<close>

text \<open>
  The C++ type \<open>int\<close> is modelled by the mathematical integers; integer
  division and remainder are the truncating \<open>sdiv\<close> and \<open>smod\<close> of C++. Signed
  overflow is undefined in C++ and has no counterpart here: the integer
  results hold for the rasters whose \<open>width * height\<close>, \<open>width + TILE_SIZE\<close> and
  \<open>height + TILE_SIZE\<close> are within the range of \<open>int\<close>, for which no operation
  of a render pass leaves it.

  The type \<open>double\<close> has two readings. The escape-time evaluator is given in
  binary64 arithmetic, every operation rounded to nearest with ties to even,
  and again over the real numbers, the same operations without rounding. The
  viewport handlers and the colour of a pixel in the renderer use the reading
  over the reals.
\<close>

definition WIDTH :: int where "WIDTH = 900"
definition HEIGHT :: int where "HEIGHT = 900"
definition MAX_ITER :: int where "MAX_ITER = 100"
definition TILE_SIZE :: int where "TILE_SIZE = 64"

section \<open>Binary64 arithmetic\<close>

text \<open>
  A finite double is a real of the form \<open>k * 2\<^sup>j\<close> with \<open>|k| < 2\<^sup>5\<^sup>3\<close>,
  \<open>j \<ge> -1074\<close> and magnitude at most \<open>max_double\<close>. Rounding takes a real to
  the nearest multiple of the unit in its last place, \<open>2\<close> to the power
  \<open>ulp_exponent\<close>, which is 52 binary places below the leading bit and never
  below \<open>2\<^sup>-\<^sup>1\<^sup>0\<^sup>7\<^sup>4\<close>; a tie goes to the even multiple.
\<close>

definition ulp_exponent :: "real \<Rightarrow> int" where
  "ulp_exponent x = max (\<lfloor>log 2 \<bar>x\<bar>\<rfloor> - 52) (- 1074)"

definition round_ties_even :: "real \<Rightarrow> int" where
  "round_ties_even y =
     (let f = \<lfloor>y\<rfloor>
      in if y - of_int f < 1 / 2 then f
         else if 1 / 2 < y - of_int f then f + 1
         else if even f then f else f + 1)"

definition round_real :: "real \<Rightarrow> real" where
  "round_real x =
     (if x = 0 then 0
      else of_int (round_ties_even (x / 2 powi ulp_exponent x)) * 2 powi ulp_exponent x)"

text \<open>
  The values of the type: the finite ones, the two infinities and NaN. The
  two zeros are one value and all NaNs are one value: no operation of the
  evaluator tells them apart. A result that rounds beyond \<open>max_double\<close>
  overflows to an infinity.
\<close>

definition max_double :: real where
  "max_double = (2 ^ 53 - 1) * 2 ^ 971"

datatype double = Finite real | PInf | NInf | NaN

definition to_double :: "real \<Rightarrow> double" where
  "to_double x =
     (let r = round_real x
      in if max_double < r then PInf
         else if r < - max_double then NInf
         else Finite r)"

definition is_double :: "double \<Rightarrow> bool" where
  "is_double d = (case d of Finite x \<Rightarrow> round_real x = x \<and> \<bar>x\<bar> \<le> max_double | _ \<Rightarrow> True)"

fun dneg :: "double \<Rightarrow> double" where
  "dneg (Finite x) = Finite (- x)"
| "dneg PInf = NInf"
| "dneg NInf = PInf"
| "dneg NaN = NaN"

fun dadd :: "double \<Rightarrow> double \<Rightarrow> double" where
  "dadd (Finite x) (Finite y) = to_double (x + y)"
| "dadd NaN b = NaN"
| "dadd a NaN = NaN"
| "dadd PInf NInf = NaN"
| "dadd NInf PInf = NaN"
| "dadd PInf b = PInf"
| "dadd a PInf = PInf"
| "dadd NInf b = NInf"
| "dadd a NInf = NInf"

definition dsub :: "double \<Rightarrow> double \<Rightarrow> double" where
  "dsub a b = dadd a (dneg b)"

fun dmul :: "double \<Rightarrow> double \<Rightarrow> double" where
  "dmul (Finite x) (Finite y) = to_double (x * y)"
| "dmul NaN b = NaN"
| "dmul a NaN = NaN"
| "dmul (Finite x) PInf = (if x = 0 then NaN else if 0 < x then PInf else NInf)"
| "dmul (Finite x) NInf = (if x = 0 then NaN else if 0 < x then NInf else PInf)"
| "dmul PInf (Finite y) = (if y = 0 then NaN else if 0 < y then PInf else NInf)"
| "dmul NInf (Finite y) = (if y = 0 then NaN else if 0 < y then NInf else PInf)"
| "dmul PInf PInf = PInf"
| "dmul PInf NInf = NInf"
| "dmul NInf PInf = NInf"
| "dmul NInf NInf = PInf"

fun dle :: "double \<Rightarrow> double \<Rightarrow> bool" where
  "dle (Finite x) (Finite y) = (x \<le> y)"
| "dle NaN b = False"
| "dle a NaN = False"
| "dle NInf b = True"
| "dle a PInf = True"
| "dle a NInf = False"
| "dle PInf b = False"

fun dlt :: "double \<Rightarrow> double \<Rightarrow> bool" where
  "dlt (Finite x) (Finite y) = (x < y)"
| "dlt NaN b = False"
| "dlt a NaN = False"
| "dlt PInf b = False"
| "dlt a NInf = False"
| "dlt NInf b = True"
| "dlt a PInf = True"

definition dgt :: "double \<Rightarrow> double \<Rightarrow> bool" where
  "dgt a b = dlt b a"

text \<open>A double that is a number or \<open>+\<infinity>\<close> and at least the real \<open>r\<close>.\<close>

definition d_ge :: "double \<Rightarrow> real \<Rightarrow> bool" where
  "d_ge d r = (case d of Finite x \<Rightarrow> r \<le> x | PInf \<Rightarrow> True | _ \<Rightarrow> False)"

section \<open>Escape-time evaluator\<close>

text \<open>
  \<open>mandelbrotEscape\<close> in binary64 arithmetic, each operation of the source
  rounded on its own (no fused multiply-add, no extended precision). The
  literals \<open>0.25\<close>, \<open>0.0625\<close>, \<open>4.0\<close>, \<open>1\<close> and \<open>2\<close> are doubles. The body of the
  \<open>do ... while\<close> loop takes the squares of the current iterate first, advances
  the iterate, increments the counter, and the loop condition then reads the
  squares taken before the update.
\<close>

definition in_cardioid_double :: "double \<Rightarrow> double \<Rightarrow> bool" where
  "in_cardioid_double cx cy =
     (let q = dadd (dmul (dsub cx (Finite 0.25)) (dsub cx (Finite 0.25))) (dmul cy cy)
      in dlt (dmul q (dadd q (dsub cx (Finite 0.25)))) (dmul (dmul (Finite 0.25) cy) cy))"

definition in_bulb_double :: "double \<Rightarrow> double \<Rightarrow> bool" where
  "in_bulb_double cx cy =
     dlt (dadd (dmul (dadd cx (Finite 1)) (dadd cx (Finite 1))) (dmul cy cy)) (Finite 0.0625)"

definition outside_disc_double :: "double \<Rightarrow> double \<Rightarrow> bool" where
  "outside_disc_double cx cy = dgt (dadd (dmul cx cx) (dmul cy cy)) (Finite 4.0)"

function escape_loop_double :: "double \<Rightarrow> double \<Rightarrow> int \<Rightarrow> double \<Rightarrow> double \<Rightarrow> int \<Rightarrow> int" where
  "escape_loop_double cx cy max_iter zx zy n =
     (let zx2 = dmul zx zx;
          zy2 = dmul zy zy;
          zy' = dadd (dmul (dmul (Finite 2) zx) zy) cy;
          zx' = dadd (dsub zx2 zy2) cx;
          n' = n + 1
      in if dle (dadd zx2 zy2) (Finite 4.0) \<and> n' < max_iter
         then escape_loop_double cx cy max_iter zx' zy' n'
         else n')"
  by pat_completeness auto
termination
  by (relation "measure (\<lambda>(cx, cy, max_iter, zx, zy, n). nat (max_iter - n))") auto

definition mandelbrotEscape_double :: "double \<Rightarrow> double \<Rightarrow> int \<Rightarrow> int" where
  "mandelbrotEscape_double cx cy max_iter =
     (if in_cardioid_double cx cy then max_iter
      else if in_bulb_double cx cy then max_iter
      else if outside_disc_double cx cy then 0
      else escape_loop_double cx cy max_iter (Finite 0) (Finite 0) 0)"

text \<open>
  The orbit \<open>z\<^sub>0 = 0\<close>, \<open>z\<^sub>k\<^sub>+\<^sub>1 = z\<^sub>k\<^sup>2 + c\<close> as the loop computes it, the
  squared modulus the loop computes for \<open>z\<^sub>k\<close>, the failure of the loop's
  test \<open>|z\<^sub>k|\<^sup>2 \<le> 4.0\<close>, and the comparison \<open>|z\<^sub>k|\<^sup>2 > 4.0\<close>.
\<close>

fun orbit_double :: "double \<Rightarrow> double \<Rightarrow> nat \<Rightarrow> double \<times> double" where
  "orbit_double cx cy 0 = (Finite 0, Finite 0)"
| "orbit_double cx cy (Suc k) =
     (let (zx, zy) = orbit_double cx cy k
      in (dadd (dsub (dmul zx zx) (dmul zy zy)) cx, dadd (dmul (dmul (Finite 2) zx) zy) cy))"

definition modulus2_double :: "double \<Rightarrow> double \<Rightarrow> nat \<Rightarrow> double" where
  "modulus2_double cx cy k = (let (zx, zy) = orbit_double cx cy k in dadd (dmul zx zx) (dmul zy zy))"

definition escaped_double :: "double \<Rightarrow> double \<Rightarrow> nat \<Rightarrow> bool" where
  "escaped_double cx cy k = (\<not> dle (modulus2_double cx cy k) (Finite 4.0))"

definition exceeds_double :: "double \<Rightarrow> double \<Rightarrow> nat \<Rightarrow> bool" where
  "exceeds_double cx cy k = dgt (modulus2_double cx cy k) (Finite 4.0)"

text \<open>
  The same function over the real numbers: the source's operations without
  rounding.
\<close>

function escape_loop :: "real \<Rightarrow> real \<Rightarrow> int \<Rightarrow> real \<Rightarrow> real \<Rightarrow> int \<Rightarrow> int" where
  "escape_loop cx cy max_iter zx zy n =
     (let zx2 = zx * zx;
          zy2 = zy * zy;
          zy' = 2 * zx * zy + cy;
          zx' = zx2 - zy2 + cx;
          n' = n + 1
      in if zx2 + zy2 \<le> 4.0 \<and> n' < max_iter
         then escape_loop cx cy max_iter zx' zy' n'
         else n')"
  by pat_completeness auto
termination
  by (relation "measure (\<lambda>(cx, cy, max_iter, zx, zy, n). nat (max_iter - n))") auto

definition in_cardioid :: "real \<Rightarrow> real \<Rightarrow> bool" where
  "in_cardioid cx cy =
     (let q = (cx - 0.25) * (cx - 0.25) + cy * cy
      in q * (q + (cx - 0.25)) < 0.25 * cy * cy)"

definition in_bulb :: "real \<Rightarrow> real \<Rightarrow> bool" where
  "in_bulb cx cy = ((cx + 1) * (cx + 1) + cy * cy < 0.0625)"

definition outside_disc :: "real \<Rightarrow> real \<Rightarrow> bool" where
  "outside_disc cx cy = (cx * cx + cy * cy > 4.0)"

definition mandelbrotEscape :: "real \<Rightarrow> real \<Rightarrow> int \<Rightarrow> int" where
  "mandelbrotEscape cx cy max_iter =
     (if in_cardioid cx cy then max_iter
      else if in_bulb cx cy then max_iter
      else if outside_disc cx cy then 0
      else escape_loop cx cy max_iter 0 0 0)"

section \<open>Colours and the pixel buffer\<close>

text \<open>
  A colour is the four bytes red, green, blue and alpha of the graphics
  library; \<open>BLACK\<close> is its opaque black. The library's \<open>ColorFromHSV\<close> is not
  part of the program and is a parameter \<open>hsv\<close> of everything that colours a
  pixel.
\<close>

datatype color = Color "8 word" "8 word" "8 word" "8 word"

definition BLACK :: color where "BLACK = Color 0 0 0 255"

text \<open>
  \<open>RenderTile\<close> receives the buffer as a bare pointer, so the buffer is a
  store from element offsets to colours, and running the procedure yields the
  sequence of its stores \<open>pixelBuffer[i] = c\<close> in program order.
\<close>

type_synonym buffer = "int \<Rightarrow> color"
type_synonym buffer_write = "int \<times> color"

fun store :: "buffer \<Rightarrow> buffer_write \<Rightarrow> buffer" where
  "store buf (i, c) = buf(i := c)"

definition run_writes :: "buffer \<Rightarrow> buffer_write list \<Rightarrow> buffer" where
  "run_writes buf ws = foldl store buf ws"

section \<open>Viewport and coordinate mapping\<close>

record viewport =
  Re_min :: real
  Re_max :: real
  Im_min :: real
  Im_max :: real

definition default_viewport :: viewport where
  "default_viewport = \<lparr>Re_min = - 2.0, Re_max = 1.5, Im_min = - 1.5, Im_max = 1.5\<rparr>"

text \<open>
  The two mapping expressions, as they occur in \<open>RenderTile\<close> (integer pixel
  converted to \<open>double\<close>) and in the wheel handler (the cursor's position).
\<close>

definition pixel_real :: "viewport \<Rightarrow> int \<Rightarrow> real \<Rightarrow> real" where
  "pixel_real vp width x = Re_min vp + (x / real_of_int width) * (Re_max vp - Re_min vp)"

definition pixel_imag :: "viewport \<Rightarrow> int \<Rightarrow> real \<Rightarrow> real" where
  "pixel_imag vp height y = Im_max vp - (y / real_of_int height) * (Im_max vp - Im_min vp)"

text \<open>The conversion \<open>(int)\<close> of a \<open>double\<close> truncates towards zero.\<close>

definition trunc_to_int :: "real \<Rightarrow> int" where
  "trunc_to_int v = (if 0 \<le> v then \<lfloor>v\<rfloor> else \<lceil>v\<rceil>)"

definition pixel_color ::
  "(real \<Rightarrow> real \<Rightarrow> real \<Rightarrow> color) \<Rightarrow> int \<Rightarrow> int \<Rightarrow> viewport \<Rightarrow> int \<Rightarrow> int \<Rightarrow> color" where
  "pixel_color hsv width height vp x y =
     (let re = pixel_real vp width (real_of_int x);
          im = pixel_imag vp height (real_of_int y);
          n = mandelbrotEscape re im MAX_ITER
      in if n = MAX_ITER then BLACK
         else (let hue = trunc_to_int (255.0 * real_of_int n / real_of_int MAX_ITER)
               in hsv (real_of_int hue) 0.5 1.2))"

section \<open>Rendering one tile\<close>

function RenderTile_xloop ::
  "(real \<Rightarrow> real \<Rightarrow> real \<Rightarrow> color) \<Rightarrow> int \<Rightarrow> int \<Rightarrow> viewport \<Rightarrow> int \<Rightarrow> int \<Rightarrow> int \<Rightarrow> buffer_write list" where
  "RenderTile_xloop hsv width height vp endX y x =
     (if x < endX
      then (y * width + x, pixel_color hsv width height vp x y)
             # RenderTile_xloop hsv width height vp endX y (x + 1)
      else [])"
  by pat_completeness auto
termination
  by (relation "measure (\<lambda>(hsv, width, height, vp, endX, y, x). nat (endX - x))") auto

function RenderTile_yloop ::
  "(real \<Rightarrow> real \<Rightarrow> real \<Rightarrow> color) \<Rightarrow> int \<Rightarrow> int \<Rightarrow> viewport \<Rightarrow> int \<Rightarrow> int \<Rightarrow> int \<Rightarrow> int \<Rightarrow> buffer_write list" where
  "RenderTile_yloop hsv width height vp startX endX endY y =
     (if y < endY
      then RenderTile_xloop hsv width height vp endX y startX
             @ RenderTile_yloop hsv width height vp startX endX endY (y + 1)
      else [])"
  by pat_completeness auto
termination
  by (relation "measure (\<lambda>(hsv, width, height, vp, startX, endX, endY, y). nat (endY - y))") auto

definition RenderTile ::
  "(real \<Rightarrow> real \<Rightarrow> real \<Rightarrow> color) \<Rightarrow> int \<Rightarrow> int \<Rightarrow> int \<Rightarrow> int \<Rightarrow> viewport \<Rightarrow> buffer_write list" where
  "RenderTile hsv tileX tileY width height vp =
     (let startX = tileX * TILE_SIZE;
          endX = min (startX + TILE_SIZE) width;
          startY = tileY * TILE_SIZE;
          endY = min (startY + TILE_SIZE) height
      in RenderTile_yloop hsv width height vp startX endX endY startY)"

text \<open>The region of the raster that the tile \<open>(tileX, tileY)\<close> names.\<close>

definition in_tile :: "int \<Rightarrow> int \<Rightarrow> int \<Rightarrow> int \<Rightarrow> int \<Rightarrow> int \<Rightarrow> bool" where
  "in_tile tileX tileY width height x y =
     (tileX * TILE_SIZE \<le> x \<and> x < min (tileX * TILE_SIZE + TILE_SIZE) width \<and>
      tileY * TILE_SIZE \<le> y \<and> y < min (tileY * TILE_SIZE + TILE_SIZE) height)"

section \<open>The render pass\<close>

text \<open>
  The body of one worker thread: the tiles \<open>t\<close>, \<open>t + numThreads\<close>, ... below
  \<open>totalTiles\<close>. The loop is written as the source has it, without assuming
  that its stride is positive; \<open>None\<close> is a loop that does not end.
\<close>

partial_function (option) worker_loop ::
  "(real \<Rightarrow> real \<Rightarrow> real \<Rightarrow> color) \<Rightarrow> int \<Rightarrow> int \<Rightarrow> viewport \<Rightarrow> int \<Rightarrow> int \<Rightarrow> int \<Rightarrow> int \<Rightarrow> buffer_write list option" where
  "worker_loop hsv currentWidth currentHeight vp tilesX totalTiles numThreads tileIdx =
     (if tileIdx < totalTiles
      then (let tileX = tileIdx smod tilesX;
                tileY = tileIdx sdiv tilesX
            in Option.bind
                 (worker_loop hsv currentWidth currentHeight vp tilesX totalTiles numThreads
                    (tileIdx + numThreads))
                 (\<lambda>ws. Some (RenderTile hsv tileX tileY currentWidth currentHeight vp @ ws)))
      else Some [])"

text \<open>The loop that starts one thread for each \<open>t\<close> below \<open>numThreads\<close>.\<close>

function spawn_loop ::
  "(real \<Rightarrow> real \<Rightarrow> real \<Rightarrow> color) \<Rightarrow> int \<Rightarrow> int \<Rightarrow> viewport \<Rightarrow> int \<Rightarrow> int \<Rightarrow> int \<Rightarrow> int \<Rightarrow> buffer_write list option list" where
  "spawn_loop hsv currentWidth currentHeight vp tilesX totalTiles numThreads t =
     (if t < numThreads
      then worker_loop hsv currentWidth currentHeight vp tilesX totalTiles numThreads t
             # spawn_loop hsv currentWidth currentHeight vp tilesX totalTiles numThreads (t + 1)
      else [])"
  by pat_completeness auto
termination
  by (relation "measure (\<lambda>(hsv, w, h, vp, tilesX, totalTiles, numThreads, t). nat (numThreads - t))") auto

definition tile_count :: "int \<Rightarrow> int" where
  "tile_count extent = (extent + TILE_SIZE - 1) sdiv TILE_SIZE"

text \<open>
  \<open>std::thread::hardware_concurrency()\<close> returns an \<open>unsigned\<close>, which the
  program stores in an \<open>int\<close>.
\<close>

definition numThreads_of :: "32 word \<Rightarrow> int" where
  "numThreads_of hardware_concurrency = sint hardware_concurrency"

text \<open>
  The traces of the threads of one pass, in the order the threads are
  started; joining needs every thread to end.
\<close>

definition thread_traces ::
  "(real \<Rightarrow> real \<Rightarrow> real \<Rightarrow> color) \<Rightarrow> int \<Rightarrow> int \<Rightarrow> viewport \<Rightarrow> int \<Rightarrow> buffer_write list list option" where
  "thread_traces hsv currentWidth currentHeight vp numThreads =
     (let tilesX = tile_count currentWidth;
          tilesY = tile_count currentHeight;
          totalTiles = tilesX * tilesY
      in those (spawn_loop hsv currentWidth currentHeight vp tilesX totalTiles numThreads 0))"

text \<open>
  The threads run concurrently. A schedule names, step by step, the thread
  whose next store happens; it is complete when it uses up every thread's
  trace, and \<open>interleave\<close> then gives the stores in the order they happen.
\<close>

fun interleave :: "nat list \<Rightarrow> 'a list list \<Rightarrow> 'a list option" where
  "interleave [] tss = (if \<forall>ts \<in> set tss. ts = [] then Some [] else None)"
| "interleave (t # sched) tss =
     (if t < length tss
      then (case tss ! t of
              [] \<Rightarrow> None
            | w # ws \<Rightarrow> map_option ((#) w) (interleave sched (tss[t := ws])))
      else None)"

text \<open>
  One pass of the render block under a schedule: the stores of its threads
  in the order they happen, and the buffer they leave. The result is \<open>None\<close>
  when a thread does not end or the schedule is not a complete schedule of
  these threads.
\<close>

definition render_trace ::
  "(real \<Rightarrow> real \<Rightarrow> real \<Rightarrow> color) \<Rightarrow> int \<Rightarrow> int \<Rightarrow> viewport \<Rightarrow> int \<Rightarrow> nat list \<Rightarrow> buffer_write list option" where
  "render_trace hsv currentWidth currentHeight vp numThreads sched =
     Option.bind (thread_traces hsv currentWidth currentHeight vp numThreads) (interleave sched)"

definition render_pass ::
  "(real \<Rightarrow> real \<Rightarrow> real \<Rightarrow> color) \<Rightarrow> int \<Rightarrow> int \<Rightarrow> viewport \<Rightarrow> int \<Rightarrow> nat list \<Rightarrow> buffer \<Rightarrow> buffer option" where
  "render_pass hsv currentWidth currentHeight vp numThreads sched buf =
     map_option (run_writes buf) (render_trace hsv currentWidth currentHeight vp numThreads sched)"

text \<open>
  The tile indices between \<open>t\<close> and \<open>totalTiles\<close> at a multiple of
  \<open>numThreads\<close> from \<open>t\<close>: what the loop of worker \<open>t\<close> visits.
\<close>

definition worker_tiles :: "int \<Rightarrow> int \<Rightarrow> int \<Rightarrow> int list" where
  "worker_tiles totalTiles numThreads t =
     filter (\<lambda>i. (i - t) mod numThreads = 0) [t..totalTiles - 1]"

section \<open>Viewport updates of the event loop\<close>


definition zoom :: "viewport \<Rightarrow> int \<Rightarrow> int \<Rightarrow> real \<Rightarrow> real \<Rightarrow> real \<Rightarrow> viewport" where
  "zoom vp currentWidth currentHeight mouse_x mouse_y wheel =
     (if wheel \<noteq> 0
      then (let mouseRe = pixel_real vp currentWidth mouse_x;
                mouseIm = pixel_imag vp currentHeight mouse_y;
                zoomFactor = (if wheel > 0 then 0.8 else 1.25);
                newWidth = (Re_max vp - Re_min vp) * zoomFactor;
                newHeight = (Im_max vp - Im_min vp) * zoomFactor
            in \<lparr>Re_min = mouseRe - newWidth / 2.0,
                Re_max = mouseRe + newWidth / 2.0,
                Im_min = mouseIm - newHeight / 2.0,
                Im_max = mouseIm + newHeight / 2.0\<rparr>)
      else vp)"

section \<open>Rounding\<close>

text \<open>
  Rounding to nearest is monotone, odd and idempotent, and it is the identity
  on the reals \<open>k * 2\<^sup>j\<close> with \<open>|k| < 2\<^sup>5\<^sup>3\<close> and \<open>j \<ge> -1074\<close>.
\<close>

lemma round_ties_even_of_int: "round_ties_even (of_int k) = k"
  by (simp add: round_ties_even_def)

lemma round_ties_even_range:
  "\<lfloor>y\<rfloor> \<le> round_ties_even y \<and> round_ties_even y \<le> \<lfloor>y\<rfloor> + 1"
  by (simp add: round_ties_even_def Let_def)

lemma round_ties_even_mono:
  assumes "x \<le> y"
  shows "round_ties_even x \<le> round_ties_even y"
proof (cases "\<lfloor>x\<rfloor> = \<lfloor>y\<rfloor>")
  case True
  have "x - of_int \<lfloor>x\<rfloor> \<le> y - of_int \<lfloor>y\<rfloor>" using assms True by simp
  then show ?thesis using True by (auto simp add: round_ties_even_def Let_def)
next
  case False
  have "\<lfloor>x\<rfloor> \<le> \<lfloor>y\<rfloor>" using assms by (rule floor_mono)
  then have "\<lfloor>x\<rfloor> + 1 \<le> \<lfloor>y\<rfloor>" using False by simp
  then show ?thesis
    using round_ties_even_range [of x] round_ties_even_range [of y] by linarith
qed

lemma round_ties_even_minus: "round_ties_even (- y) = - round_ties_even y"
proof (cases "y = of_int \<lfloor>y\<rfloor>")
  case True
  then obtain k where "y = of_int k" ..
  then show ?thesis using round_ties_even_of_int [of k] round_ties_even_of_int [of "- k"] by simp
next
  case False
  then have lt: "of_int \<lfloor>y\<rfloor> < y" using of_int_floor_le [of y] by linarith
  have up: "y < of_int \<lfloor>y\<rfloor> + 1" by linarith
  have "\<lfloor>- y\<rfloor> = - \<lfloor>y\<rfloor> - 1"
  proof (rule floor_unique)
    show "of_int (- \<lfloor>y\<rfloor> - 1) \<le> - y" using up by (simp, linarith)
    show "- y < of_int (- \<lfloor>y\<rfloor> - 1) + 1" using lt by simp
  qed
  then show ?thesis by (auto simp add: round_ties_even_def Let_def)
qed

lemma round_ties_even_nonneg: "0 \<le> y \<Longrightarrow> 0 \<le> round_ties_even y"
  using round_ties_even_mono [of 0 y] round_ties_even_of_int [of 0] by simp

lemma round_ties_even_le_of_int: "y \<le> of_int k \<Longrightarrow> round_ties_even y \<le> k"
  using round_ties_even_mono [of y "of_int k"] round_ties_even_of_int [of k] by simp

lemma round_ties_even_ge_of_int: "of_int k \<le> y \<Longrightarrow> k \<le> round_ties_even y"
  using round_ties_even_mono [of "of_int k" y] round_ties_even_of_int [of k] by simp

lemma two_powr_of_int: "(2::real) powr real_of_int k = 2 powi k"
  by (rule powr_real_of_int') simp_all

lemma floor_log2_eq_iff:
  assumes "x \<noteq> 0"
  shows "\<lfloor>log 2 \<bar>x\<bar>\<rfloor> = k \<longleftrightarrow> 2 powi k \<le> \<bar>x\<bar> \<and> \<bar>x\<bar> < 2 powi (k + 1)"
proof -
  have "\<lfloor>log 2 \<bar>x\<bar>\<rfloor> = k \<longleftrightarrow> 2 powr real_of_int k \<le> \<bar>x\<bar> \<and> \<bar>x\<bar> < 2 powr (real_of_int k + 1)"
    using assms floor_log_eq_powr_iff [of "\<bar>x\<bar>" 2 k] by simp
  moreover have "real_of_int k + 1 = real_of_int (k + 1)" by simp
  ultimately show ?thesis by (simp only: two_powr_of_int)
qed

lemma binade:
  assumes "x \<noteq> 0"
  shows "2 powi \<lfloor>log 2 \<bar>x\<bar>\<rfloor> \<le> \<bar>x\<bar>" and "\<bar>x\<bar> < 2 powi (\<lfloor>log 2 \<bar>x\<bar>\<rfloor> + 1)"
  using floor_log2_eq_iff [OF assms, of "\<lfloor>log 2 \<bar>x\<bar>\<rfloor>"] by simp_all

lemma powi_less_mono: "i < j \<Longrightarrow> (2::real) powi i < 2 powi j"
  by (rule power_int_strict_increasing) simp_all

lemma powi_le_mono: "i \<le> j \<Longrightarrow> (2::real) powi i \<le> 2 powi j"
  by (rule power_int_increasing) simp_all

lemma powi_split: "(2::real) powi (i + j) = 2 powi i * 2 powi j"
  by (rule power_int_add) simp

lemma powi_cancel: "(2::real) powi i * 2 powi (- i) = 1"
  using powi_split [of i "- i"] by simp

lemma ulp_exponent_minus [simp]: "ulp_exponent (- x) = ulp_exponent x"
  by (simp add: ulp_exponent_def)

lemma ulp_exponent_ge: "- 1074 \<le> ulp_exponent x"
  by (simp add: ulp_exponent_def)

lemma ulp_exponent_mono:
  assumes "x \<noteq> 0" and "\<bar>x\<bar> \<le> \<bar>y\<bar>"
  shows "ulp_exponent x \<le> ulp_exponent y"
proof -
  have "log 2 \<bar>x\<bar> \<le> log 2 \<bar>y\<bar>" using assms by simp
  then have "\<lfloor>log 2 \<bar>x\<bar>\<rfloor> \<le> \<lfloor>log 2 \<bar>y\<bar>\<rfloor>" by (rule floor_mono)
  then show ?thesis by (simp add: ulp_exponent_def)
qed

text \<open>The scaled magnitude lies below \<open>2^53\<close>, and at or above \<open>2^52\<close> in the normal range.\<close>

lemma scaled_upper:
  assumes "x \<noteq> 0"
  shows "\<bar>x\<bar> / 2 powi ulp_exponent x < 2 ^ 53"
proof -
  have "\<lfloor>log 2 \<bar>x\<bar>\<rfloor> + 1 \<le> ulp_exponent x + 53" by (simp add: ulp_exponent_def)
  then have "2 powi (\<lfloor>log 2 \<bar>x\<bar>\<rfloor> + 1) \<le> (2::real) powi (ulp_exponent x + 53)"
    by (rule powi_le_mono)
  then have "\<bar>x\<bar> < 2 powi (ulp_exponent x + 53)" using binade(2) [OF assms] by linarith
  also have "\<dots> = 2 powi ulp_exponent x * 2 ^ 53" by (simp add: powi_split)
  finally show ?thesis by (simp add: pos_divide_less_eq mult.commute)
qed

lemma scaled_lower:
  assumes "x \<noteq> 0" and "- 1074 < ulp_exponent x"
  shows "2 ^ 52 \<le> \<bar>x\<bar> / 2 powi ulp_exponent x"
proof -
  have e: "ulp_exponent x + 52 = \<lfloor>log 2 \<bar>x\<bar>\<rfloor>" using assms(2) by (simp add: ulp_exponent_def max_def split: if_splits)
  have "2 powi (ulp_exponent x + 52) \<le> \<bar>x\<bar>" unfolding e by (rule binade(1) [OF assms(1)])
  moreover have "(2::real) powi (ulp_exponent x + 52) = 2 powi ulp_exponent x * 2 ^ 52" by (simp add: powi_split)
  ultimately show ?thesis by (simp add: pos_le_divide_eq mult.commute)
qed

lemma round_real_0 [simp]: "round_real 0 = 0"
  by (simp add: round_real_def)

lemma round_real_minus: "round_real (- x) = - round_real x"
  by (simp add: round_real_def round_ties_even_minus)

lemma round_real_pos_upper:
  assumes "0 < x"
  shows "round_real x \<le> 2 powi (ulp_exponent x + 53)"
proof -
  have "x / 2 powi ulp_exponent x \<le> of_int (2 ^ 53)"
    using scaled_upper [of x] assms by simp
  then have "round_ties_even (x / 2 powi ulp_exponent x) \<le> 2 ^ 53"
    by (rule round_ties_even_le_of_int)
  then have "real_of_int (round_ties_even (x / 2 powi ulp_exponent x)) \<le> 2 ^ 53"
    by (metis of_int_le_iff of_int_numeral of_int_power)
  then have "real_of_int (round_ties_even (x / 2 powi ulp_exponent x)) * 2 powi ulp_exponent x
      \<le> 2 ^ 53 * 2 powi ulp_exponent x"
    by (intro mult_right_mono) simp_all
  then show ?thesis using assms by (simp add: round_real_def powi_split mult.commute)
qed

lemma round_real_pos_lower:
  assumes "0 < x" and "- 1074 < ulp_exponent x"
  shows "2 powi (ulp_exponent x + 52) \<le> round_real x"
proof -
  have "of_int (2 ^ 52) \<le> x / 2 powi ulp_exponent x"
    using scaled_lower [of x] assms by simp
  then have "2 ^ 52 \<le> round_ties_even (x / 2 powi ulp_exponent x)"
    by (rule round_ties_even_ge_of_int)
  then have "2 ^ 52 \<le> real_of_int (round_ties_even (x / 2 powi ulp_exponent x))"
    by (metis of_int_le_iff of_int_numeral of_int_power)
  then have "2 ^ 52 * 2 powi ulp_exponent x
      \<le> real_of_int (round_ties_even (x / 2 powi ulp_exponent x)) * 2 powi ulp_exponent x"
    by (intro mult_right_mono) simp_all
  then show ?thesis using assms by (simp add: round_real_def powi_split mult.commute)
qed

lemma round_real_nonneg:
  assumes "0 \<le> x"
  shows "0 \<le> round_real x"
proof (cases "x = 0")
  case False
  then have "0 \<le> x / 2 powi ulp_exponent x" using assms by simp
  then have "0 \<le> round_ties_even (x / 2 powi ulp_exponent x)" by (rule round_ties_even_nonneg)
  then show ?thesis using False by (simp add: round_real_def)
qed simp

lemma round_real_mono_pos:
  assumes "0 < x" and "x \<le> y"
  shows "round_real x \<le> round_real y"
proof -
  have y: "0 < y" using assms by simp
  have le: "ulp_exponent x \<le> ulp_exponent y"
    using assms by (intro ulp_exponent_mono) simp_all
  show ?thesis
  proof (cases "ulp_exponent x = ulp_exponent y")
    case True
    have "x / 2 powi ulp_exponent y \<le> y / 2 powi ulp_exponent y"
      using assms(2) by (simp add: divide_right_mono)
    then have "round_ties_even (x / 2 powi ulp_exponent y) \<le> round_ties_even (y / 2 powi ulp_exponent y)"
      by (rule round_ties_even_mono)
    then have "real_of_int (round_ties_even (x / 2 powi ulp_exponent y)) * 2 powi ulp_exponent y
        \<le> real_of_int (round_ties_even (y / 2 powi ulp_exponent y)) * 2 powi ulp_exponent y"
      by (intro mult_right_mono) simp_all
    then show ?thesis using assms y True by (simp add: round_real_def)
  next
    case False
    then have lt: "ulp_exponent x < ulp_exponent y" using le by simp
    then have n: "- 1074 < ulp_exponent y" using ulp_exponent_ge [of x] by simp
    have "round_real x \<le> 2 powi (ulp_exponent x + 53)" by (rule round_real_pos_upper [OF assms(1)])
    also have "\<dots> \<le> 2 powi (ulp_exponent y + 52)" using lt by (intro powi_le_mono) simp
    also have "\<dots> \<le> round_real y" by (rule round_real_pos_lower [OF y n])
    finally show ?thesis .
  qed
qed

lemma round_real_mono:
  assumes "x \<le> y"
  shows "round_real x \<le> round_real y"
proof -
  consider "0 < x" | "x \<le> 0" "0 \<le> y" | "y < 0" using assms by linarith
  then show ?thesis
  proof cases
    case 1
    then show ?thesis using assms by (rule round_real_mono_pos)
  next
    case 2
    have "round_real x \<le> 0" using round_real_nonneg [of "- x"] 2(1) by (simp add: round_real_minus)
    moreover have "0 \<le> round_real y" using 2(2) by (rule round_real_nonneg)
    ultimately show ?thesis by simp
  next
    case 3
    have "round_real (- y) \<le> round_real (- x)"
      using 3 assms by (intro round_real_mono_pos) simp_all
    then show ?thesis by (simp add: round_real_minus)
  qed
qed

text \<open>A value \<open>k * 2^j\<close> with \<open>|k| < 2^53\<close> and \<open>j \<ge> -1074\<close> rounds to itself.\<close>

lemma round_real_exact:
  assumes k: "\<bar>k\<bar> < 2 ^ 53" and j: "- 1074 \<le> j"
  shows "round_real (of_int k * 2 powi j) = of_int k * 2 powi j"
proof (cases "k = 0")
  case True
  then show ?thesis by simp
next
  case False
  define x where "x = real_of_int k * 2 powi j"
  have x0: "x \<noteq> 0" using False by (simp add: x_def)
  have "\<bar>x\<bar> = real_of_int \<bar>k\<bar> * 2 powi j" by (simp add: x_def abs_mult)
  moreover have "real_of_int \<bar>k\<bar> < 2 ^ 53" using k by (metis of_int_less_iff of_int_numeral of_int_power)
  ultimately have "\<bar>x\<bar> < 2 ^ 53 * 2 powi j" by (simp add: mult_strict_right_mono)
  then have ub: "\<bar>x\<bar> < 2 powi (j + 53)" by (simp add: powi_split mult.commute)
  have "\<lfloor>log 2 \<bar>x\<bar>\<rfloor> < j + 53"
  proof (rule ccontr)
    assume "\<not> \<lfloor>log 2 \<bar>x\<bar>\<rfloor> < j + 53"
    then have "(2::real) powi (j + 53) \<le> 2 powi \<lfloor>log 2 \<bar>x\<bar>\<rfloor>" by (intro powi_le_mono) simp
    then show False using binade(1) [OF x0] ub by linarith
  qed
  then have ue: "ulp_exponent x \<le> j" using j by (simp add: ulp_exponent_def)
  define n where "n = nat (j - ulp_exponent x)"
  have jn: "j = ulp_exponent x + int n" using ue by (simp add: n_def)
  have pw: "(2::real) powi j = 2 powi ulp_exponent x * 2 ^ n"
    by (subst jn) (simp add: powi_split)
  have "x = real_of_int k * 2 powi j" by (rule x_def)
  also have "\<dots> = real_of_int k * (2 powi ulp_exponent x * 2 ^ n)" by (simp only: pw)
  also have "\<dots> = real_of_int (k * 2 ^ n) * 2 powi ulp_exponent x" by simp
  finally have sc: "x = real_of_int (k * 2 ^ n) * 2 powi ulp_exponent x" .
  have "x / 2 powi ulp_exponent x
      = real_of_int (k * 2 ^ n) * 2 powi ulp_exponent x / 2 powi ulp_exponent x"
    by (rule arg_cong [where f = "\<lambda>t. t / 2 powi ulp_exponent x", OF sc])
  also have "\<dots> = real_of_int (k * 2 ^ n)" by simp
  finally have "x / 2 powi ulp_exponent x = real_of_int (k * 2 ^ n)" .
  then have "round_ties_even (x / 2 powi ulp_exponent x) = k * 2 ^ n"
    by (simp only: round_ties_even_of_int)
  then have "round_real x = real_of_int (k * 2 ^ n) * 2 powi ulp_exponent x"
    using x0 by (simp only: round_real_def if_False)
  then have "round_real x = x" by (rule trans) (rule sc [symmetric])
  then show ?thesis by (simp only: x_def)
qed

lemma round_real_repr:
  "\<exists>k j. \<bar>k\<bar> < 2 ^ 53 \<and> - 1074 \<le> j \<and> round_real x = real_of_int k * 2 powi j"
proof (cases "x = 0")
  case True
  have "\<bar>0::int\<bar> < 2 ^ 53 \<and> - 1074 \<le> (0::int) \<and> round_real x = real_of_int 0 * 2 powi 0"
    using True by simp
  then show ?thesis by blast
next
  case False
  define K where "K = round_ties_even (x / 2 powi ulp_exponent x)"
  have r: "round_real x = of_int K * 2 powi ulp_exponent x" using False by (simp add: round_real_def K_def)
  have "round_ties_even (\<bar>x\<bar> / 2 powi ulp_exponent x) \<le> 2 ^ 53"
    using scaled_upper [OF False] by (intro round_ties_even_le_of_int) simp
  moreover have "0 \<le> round_ties_even (\<bar>x\<bar> / 2 powi ulp_exponent x)"
    by (intro round_ties_even_nonneg) simp
  moreover have "round_ties_even (\<bar>x\<bar> / 2 powi ulp_exponent x) = \<bar>K\<bar>"
  proof (cases "0 \<le> x")
    case True
    then have "0 \<le> K" unfolding K_def by (intro round_ties_even_nonneg) simp
    then show ?thesis using True by (simp add: K_def)
  next
    case False
    then have "K \<le> 0" unfolding K_def by (intro round_ties_even_le_of_int) (simp add: divide_nonpos_pos)
    moreover have "\<bar>x\<bar> / 2 powi ulp_exponent x = - (x / 2 powi ulp_exponent x)" using False by simp
    ultimately show ?thesis by (simp only: round_ties_even_minus K_def)
  qed
  ultimately have Kb: "\<bar>K\<bar> \<le> 2 ^ 53" by simp
  show ?thesis
  proof (cases "\<bar>K\<bar> < 2 ^ 53")
    case True
    then show ?thesis using r ulp_exponent_ge [of x] by blast
  next
    case False
    then have "\<bar>K\<bar> = 2 ^ 53" using Kb by simp
    then have "K = 2 * (sgn K * 2 ^ 52)" by (cases "0 \<le> K") (simp_all add: sgn_if)
    then have "real_of_int K * 2 powi ulp_exponent x
        = real_of_int (sgn K * 2 ^ 52) * 2 powi (ulp_exponent x + 1)"
      by (simp add: powi_split)
    moreover have "\<bar>sgn K * 2 ^ 52\<bar> < (2::int) ^ 53" by (simp add: abs_mult abs_sgn_eq)
    moreover have "- 1074 \<le> ulp_exponent x + 1" using ulp_exponent_ge [of x] by simp
    ultimately show ?thesis using r by metis
  qed
qed

lemma round_real_idem: "round_real (round_real x) = round_real x"
proof -
  obtain k j where "\<bar>k\<bar> < 2 ^ 53" and "- 1074 \<le> j" and r: "round_real x = real_of_int k * 2 powi j"
    using round_real_repr [of x] by blast
  then show ?thesis unfolding r by (intro round_real_exact)
qed

lemma exact_repr:
  assumes "round_real x = x"
  obtains k j where "\<bar>k\<bar> < 2 ^ 53" and "- 1074 \<le> j" and "x = real_of_int k * 2 powi j"
  using round_real_repr [of x] assms by auto

lemma exact_double:
  assumes "round_real x = x"
  shows "round_real (2 * x) = 2 * x"
proof -
  from assms obtain k j where k: "\<bar>k\<bar> < 2 ^ 53" and j: "- 1074 \<le> j"
    and x: "x = real_of_int k * 2 powi j" by (rule exact_repr)
  have "2 * x = real_of_int k * 2 powi (j + 1)" by (simp add: x powi_split)
  moreover have "round_real (real_of_int k * 2 powi (j + 1)) = real_of_int k * 2 powi (j + 1)"
    by (rule round_real_exact [OF k]) (use j in simp)
  ultimately show ?thesis by simp
qed

lemma exact_minus: "round_real x = x \<Longrightarrow> round_real (- x) = - x"
  by (simp add: round_real_minus)

lemma exact_dyadic:
  assumes "\<bar>k\<bar> < 2 ^ 53" and "n \<le> 1074"
  shows "round_real (real_of_int k / 2 ^ n) = real_of_int k / 2 ^ n"
proof -
  have "real_of_int k / 2 ^ n = real_of_int k * 2 powi (- int n)"
    by (simp add: power_int_minus field_simps)
  moreover have "round_real (real_of_int k * 2 powi (- int n)) = real_of_int k * 2 powi (- int n)"
    by (rule round_real_exact [OF assms(1)]) (use assms(2) in simp)
  ultimately show ?thesis by simp
qed

lemma exact_int: "\<bar>k\<bar> < 2 ^ 53 \<Longrightarrow> round_real (real_of_int k) = real_of_int k"
  using exact_dyadic [of k 0] by simp

section \<open>Operations on doubles\<close>

text \<open>
  The results of the operations are doubles; bounds from below pass through
  sums and products, and a finite result has finite operands. A real of known
  binade rounds to the nearest multiple of its unit in the last place, which
  gives the value of an operation on concrete operands.
\<close>

lemma max_double_pos: "0 < max_double"
  by (simp add: max_double_def)

lemma to_double_cases:
  obtains "to_double x = PInf" "max_double < round_real x"
  | "to_double x = NInf" "round_real x < - max_double"
  | "to_double x = Finite (round_real x)" "\<bar>round_real x\<bar> \<le> max_double"
proof -
  consider "max_double < round_real x" | "round_real x < - max_double"
    | "\<bar>round_real x\<bar> \<le> max_double" by linarith
  then show ?thesis
  proof cases
    case 1
    then show ?thesis using that(1) by (simp add: to_double_def)
  next
    case 2
    then have "\<not> max_double < round_real x" using max_double_pos by linarith
    then show ?thesis using 2 that(2) by (simp add: to_double_def)
  next
    case 3
    then have "\<not> max_double < round_real x" "\<not> round_real x < - max_double" by linarith+
    then show ?thesis using 3 that(3) by (simp add: to_double_def)
  qed
qed

lemma to_double_not_NaN [simp]: "to_double x \<noteq> NaN"
  by (rule to_double_cases [of x]) simp_all

lemma to_double_exact:
  "round_real x = x \<Longrightarrow> \<bar>x\<bar> \<le> max_double \<Longrightarrow> to_double x = Finite x"
  by (auto simp add: to_double_def Let_def)

lemma is_double_to_double: "is_double (to_double x)"
  by (rule to_double_cases [of x]) (simp_all add: is_double_def round_real_idem)

lemma round_real_ge: "round_real r = r \<Longrightarrow> r \<le> x \<Longrightarrow> r \<le> round_real x"
  using round_real_mono [of r x] by simp

lemma round_real_le: "round_real r = r \<Longrightarrow> x \<le> r \<Longrightarrow> round_real x \<le> r"
  using round_real_mono [of x r] by simp

lemma d_ge_to_double:
  "r \<le> round_real x \<Longrightarrow> - max_double \<le> r \<Longrightarrow> d_ge (to_double x) r"
  by (rule to_double_cases [of x]) (simp_all add: d_ge_def)

lemma d_ge_weaken: "d_ge d r \<Longrightarrow> r' \<le> r \<Longrightarrow> d_ge d r'"
  by (cases d) (simp_all add: d_ge_def)

lemma d_ge_not_NaN: "d_ge d r \<Longrightarrow> d \<noteq> NaN \<and> d \<noteq> NInf"
  by (cases d) (simp_all add: d_ge_def)

lemma d_ge_dadd:
  assumes "d_ge a r1" and "d_ge b r2" and "round_real r = r" and "r \<le> r1 + r2"
    and "- max_double \<le> r"
  shows "d_ge (dadd a b) r"
proof (cases a)
  case (Finite x)
  show ?thesis
  proof (cases b)
    case (Finite y)
    have "r \<le> x + y" using assms(1,2,4) \<open>a = Finite x\<close> Finite by (simp add: d_ge_def)
    then have "r \<le> round_real (x + y)" by (rule round_real_ge [OF assms(3)])
    then show ?thesis using \<open>a = Finite x\<close> Finite assms(5) by (simp add: d_ge_to_double)
  qed (use assms Finite in \<open>simp_all add: d_ge_def\<close>)
next
  case PInf
  then show ?thesis using assms(2) by (cases b) (simp_all add: d_ge_def)
qed (use assms in \<open>simp_all add: d_ge_def\<close>)

lemma d_ge_dmul:
  assumes "d_ge a r1" and "d_ge b r2" and "0 < r1" and "0 < r2"
    and "round_real r = r" and "r \<le> r1 * r2" and "- max_double \<le> r"
  shows "d_ge (dmul a b) r"
proof (cases a)
  case (Finite x)
  then have x: "r1 \<le> x" using assms(1) by (simp add: d_ge_def)
  show ?thesis
  proof (cases b)
    case (Finite y)
    then have y: "r2 \<le> y" using assms(2) by (simp add: d_ge_def)
    have "r1 * r2 \<le> x * y" using x y assms(3,4) by (intro mult_mono) simp_all
    then have "r \<le> x * y" using assms(6) by simp
    then have "r \<le> round_real (x * y)" by (rule round_real_ge [OF assms(5)])
    then show ?thesis using \<open>a = Finite x\<close> Finite assms(7) by (simp add: d_ge_to_double)
  next
    case PInf
    then show ?thesis using \<open>a = Finite x\<close> x assms(3) by (simp add: d_ge_def)
  qed (use assms in \<open>simp_all add: d_ge_def\<close>)
next
  case PInf
  then show ?thesis using assms(2,4) by (cases b) (auto simp add: d_ge_def)
qed (use assms in \<open>simp_all add: d_ge_def\<close>)

lemma dadd_eq_Finite:
  assumes "dadd a b = Finite z"
  obtains x y where "a = Finite x" and "b = Finite y" and "z = round_real (x + y)"
    and "\<bar>z\<bar> \<le> max_double"
proof (cases a)
  case (Finite x)
  show ?thesis
  proof (cases b)
    case (Finite y)
    have "to_double (x + y) = Finite z" using assms \<open>a = Finite x\<close> Finite by simp
    then have "z = round_real (x + y) \<and> \<bar>z\<bar> \<le> max_double"
      by (rule_tac x = "x + y" in to_double_cases) auto
    then show ?thesis using that \<open>a = Finite x\<close> Finite by blast
  qed (use assms Finite in simp_all)
next
  case PInf
  then show ?thesis using assms by (cases b) simp_all
next
  case NInf
  then show ?thesis using assms by (cases b) simp_all
qed (use assms in simp)

lemma dmul_eq_Finite:
  assumes "dmul a b = Finite z"
  obtains x y where "a = Finite x" and "b = Finite y" and "z = round_real (x * y)"
    and "\<bar>z\<bar> \<le> max_double"
proof (cases a)
  case (Finite x)
  show ?thesis
  proof (cases b)
    case (Finite y)
    have "to_double (x * y) = Finite z" using assms \<open>a = Finite x\<close> Finite by simp
    then have "z = round_real (x * y) \<and> \<bar>z\<bar> \<le> max_double"
      by (rule_tac x = "x * y" in to_double_cases) auto
    then show ?thesis using that \<open>a = Finite x\<close> Finite by blast
  qed (use assms Finite in \<open>simp_all split: if_splits\<close>)
next
  case PInf
  then show ?thesis using assms by (cases b) (simp_all split: if_splits)
next
  case NInf
  then show ?thesis using assms by (cases b) (simp_all split: if_splits)
qed (use assms in simp)

lemma dlt_PInf_left [simp]: "dlt PInf b = False"
  by (cases b) simp_all

lemma dlt_NaN_right [simp]: "dlt a NaN = False"
  by (cases a) simp_all

lemma dadd_NaN_right [simp]: "dadd a NaN = NaN"
  by (cases a) simp_all

lemma dmul_NaN_right [simp]: "dmul a NaN = NaN"
  by (cases a) simp_all

lemma to_double_finite:
  assumes "\<bar>round_real x\<bar> \<le> max_double"
  shows "to_double x = Finite (round_real x)"
proof -
  have "\<not> max_double < round_real x" "\<not> round_real x < - max_double" using assms by linarith+
  then show ?thesis by (simp add: to_double_def)
qed

lemma to_double_0 [simp]: "to_double 0 = Finite 0"
  using max_double_pos by (simp add: to_double_def)

lemma to_double_dyadic:
  assumes "\<bar>k\<bar> < 2 ^ 53" and "n \<le> 1074"
  shows "to_double (real_of_int k / 2 ^ n) = Finite (real_of_int k / 2 ^ n)"
proof (rule to_double_exact)
  show "round_real (real_of_int k / 2 ^ n) = real_of_int k / 2 ^ n"
    using assms by (rule exact_dyadic)
  have "\<bar>real_of_int k / 2 ^ n\<bar> \<le> \<bar>real_of_int k\<bar>"
    by (simp add: abs_divide field_simps mult_le_cancel_left1)
  also have "\<dots> = real_of_int \<bar>k\<bar>" by simp
  also have "\<dots> \<le> real_of_int (2 ^ 53)" using assms(1) by (simp only: of_int_le_iff)
  also have "\<dots> \<le> max_double" by (simp add: max_double_def)
  finally show "\<bar>real_of_int k / 2 ^ n\<bar> \<le> max_double" .
qed

lemma to_double_int: "\<bar>k\<bar> < 2 ^ 53 \<Longrightarrow> to_double (real_of_int k) = Finite (real_of_int k)"
  using to_double_dyadic [of k 0] by simp

lemma round_real_abs_upper:
  assumes "x \<noteq> 0"
  shows "\<bar>round_real x\<bar> \<le> 2 powi (ulp_exponent x + 53)"
proof (cases "0 < x")
  case True
  then show ?thesis using round_real_pos_upper [of x] round_real_nonneg [of x] by simp
next
  case False
  then have "0 < - x" using assms by simp
  then show ?thesis
    using round_real_pos_upper [of "- x"] round_real_nonneg [of "- x"]
    by (simp add: round_real_minus)
qed

lemma to_double_eval:
  assumes lo: "2 powi e \<le> \<bar>x\<bar>" and hi: "\<bar>x\<bar> < 2 powi (e + 1)"
    and e: "- 1022 \<le> e" "e \<le> 1022"
  shows "to_double x = Finite (real_of_int (round_ties_even (x * 2 powi (52 - e))) * 2 powi (e - 52))"
proof -
  have "0 < (2::real) powi e" by simp
  then have "0 < \<bar>x\<bar>" using lo by linarith
  then have x0: "x \<noteq> 0" by simp
  have "\<lfloor>log 2 \<bar>x\<bar>\<rfloor> = e" using floor_log2_eq_iff [OF x0, of e] lo hi by simp
  then have ue: "ulp_exponent x = e - 52" using e(1) by (simp add: ulp_exponent_def)
  have "(2::real) powi (52 - e) * 2 powi (e - 52) = 1" using powi_cancel [of "52 - e"] by simp
  then have "x / 2 powi (e - 52) = x * 2 powi (52 - e)"
    by (simp add: field_simps)
  then have r: "round_real x = real_of_int (round_ties_even (x * 2 powi (52 - e))) * 2 powi (e - 52)"
    using x0 ue by (simp add: round_real_def)
  have ue1: "ulp_exponent x + 53 = e + 1" using ue by simp
  have "\<bar>round_real x\<bar> \<le> 2 powi (e + 1)"
    using round_real_abs_upper [OF x0] unfolding ue1 .
  also have "\<dots> \<le> 2 powi 1023" using e(2) by (intro powi_le_mono) simp
  also have "\<dots> \<le> max_double" by (simp add: max_double_def)
  finally have "to_double x = Finite (round_real x)" by (rule to_double_finite)
  then show ?thesis by (simp only: r)
qed

lemma to_double_abs_bounded:
  assumes "\<bar>v\<bar> \<le> B" and "round_real B = B" and "B \<le> max_double"
  obtains r where "to_double v = Finite r" and "\<bar>r\<bar> \<le> B"
proof -
  have 1: "round_real v \<le> B" using assms(2) by (rule round_real_le) (use assms(1) in simp)
  have "round_real (- B) = - B" using assms(2) by (rule exact_minus)
  then have 2: "- B \<le> round_real v" by (rule round_real_ge) (use assms(1) in simp)
  have "\<bar>round_real v\<bar> \<le> max_double" using 1 2 assms(3) by simp
  then have "to_double v = Finite (round_real v)" by (rule to_double_finite)
  then show ?thesis using that 1 2 by simp
qed

lemma to_double_minus: "to_double (- x) = dneg (to_double x)"
proof (rule to_double_cases [of x])
  assume "to_double x = PInf" "max_double < round_real x"
  then show ?thesis using max_double_pos by (simp add: to_double_def round_real_minus)
next
  assume "to_double x = NInf" "round_real x < - max_double"
  then show ?thesis using max_double_pos by (simp add: to_double_def round_real_minus)
next
  assume "to_double x = Finite (round_real x)" "\<bar>round_real x\<bar> \<le> max_double"
  then show ?thesis using to_double_finite [of "- x"] by (simp add: round_real_minus)
qed

lemma dmul_dneg_right: "dmul a (dneg b) = dneg (dmul a b)"
  by (cases a; cases b) (auto simp add: to_double_minus)

lemma dmul_dneg_left: "dmul (dneg a) b = dneg (dmul a b)"
  by (cases a; cases b) (auto simp add: to_double_minus)

lemma dneg_dneg [simp]: "dneg (dneg a) = a"
  by (cases a) simp_all

lemma dadd_dneg: "dadd (dneg a) (dneg b) = dneg (dadd a b)"
proof (cases a; cases b)
  fix x y assume "a = Finite x" "b = Finite y"
  then show ?thesis using to_double_minus [of "x + y"] by simp
qed simp_all

section \<open>The shortcut tests in binary64 arithmetic\<close>

text \<open>
  When the computed sum \<open>cx * cx + cy * cy\<close> compares greater than \<open>4.0\<close>, the
  computed cardioid and bulb tests fail, for all doubles, the infinities and
  NaN included.
\<close>

lemma d_ge_cases:
  assumes "d_ge d r"
  obtains "d = PInf" | x where "d = Finite x" and "r \<le> x"
  using assms by (cases d) (simp_all add: d_ge_def)

lemma square_d_ge: "d \<noteq> NaN \<Longrightarrow> d_ge (dmul d d) 0"
proof (cases d)
  case (Finite x)
  have "0 \<le> round_real (x * x)" by (rule round_real_nonneg) simp
  then show ?thesis using Finite max_double_pos by (simp add: d_ge_to_double)
qed (simp_all add: d_ge_def)

lemma outside_not_NaN:
  assumes "outside_disc_double cx cy"
  shows "cx \<noteq> NaN" and "cy \<noteq> NaN"
proof -
  show "cx \<noteq> NaN" using assms by (auto simp add: outside_disc_double_def dgt_def)
  show "cy \<noteq> NaN"
  proof
    assume "cy = NaN"
    then have "dadd (dmul cx cx) (dmul cy cy) = NaN" by (cases "dmul cx cx") simp_all
    then show False using assms by (simp add: outside_disc_double_def dgt_def)
  qed
qed

lemma to_double_bounded:
  assumes "0 \<le> x" and "x \<le> B" and "round_real B = B" and "B \<le> max_double"
  obtains r where "to_double x = Finite r" and "0 \<le> r" and "r \<le> B"
proof -
  have 1: "0 \<le> round_real x" using assms(1) by (rule round_real_nonneg)
  have 2: "round_real x \<le> B" using assms(3,2) by (rule round_real_le)
  have "to_double x = Finite (round_real x)"
    using 1 2 assms(4) max_double_pos by (simp add: to_double_def)
  then show ?thesis using that 1 2 by blast
qed

lemma outside_lower:
  assumes "dlt (Finite 4) (dadd (Finite a) V)" and "a \<le> A"
  shows "d_ge V (4 - A)"
proof (cases V)
  case (Finite v)
  have e4: "round_real 4 = 4" using exact_int [of 4] by simp
  have "4 < round_real (a + v)"
    using assms(1) Finite by (rule_tac x = "a + v" in to_double_cases) (auto simp add: max_double_def)
  then have "4 < a + v" using round_real_le [OF e4, of "a + v"] by linarith
  then show ?thesis using assms(2) Finite by (simp add: d_ge_def)
qed (use assms in \<open>simp_all add: d_ge_def\<close>)

lemma sq_le: "\<bar>x\<bar> \<le> b \<Longrightarrow> x * x \<le> b * (b::real)"
  using abs_le_square_iff [of x b] by (simp add: power2_eq_square)

lemma sq_ge: "0 \<le> b \<Longrightarrow> b \<le> \<bar>x\<bar> \<Longrightarrow> b * b \<le> x * (x::real)"
  using abs_le_square_iff [of b x] by (simp add: power2_eq_square)

lemma outside_not_bulb:
  assumes o: "outside_disc_double cx cy"
  shows "\<not> in_bulb_double cx cy"
proof
  assume b: "in_bulb_double cx cy"
  note nn = outside_not_NaN [OF o]
  define w where "w = dadd cx (Finite 1)"
  have wn: "w \<noteq> NaN" using nn(1) by (cases cx) (simp_all add: w_def)
  have U0: "d_ge (dmul w w) 0" using wn by (rule square_d_ge)
  have V0: "d_ge (dmul cy cy) 0" using nn(2) by (rule square_d_ge)
  have e16: "round_real (1 / 16) = 1 / 16" using exact_dyadic [of 1 4] by simp
  have e4: "round_real (1 / 4) = 1 / 4" using exact_dyadic [of 1 2] by simp
  have lt: "dlt (dadd (dmul w w) (dmul cy cy)) (Finite (1 / 16))"
    using b by (simp add: in_bulb_double_def w_def)
  from U0 V0 lt obtain u v where U: "dmul w w = Finite u" and V: "dmul cy cy = Finite v"
    and u0: "0 \<le> u" and v0: "0 \<le> v"
    by (elim d_ge_cases) simp_all
  have "dlt (to_double (u + v)) (Finite (1 / 16))" using lt U V by simp
  then have "round_real (u + v) < 1 / 16"
    by (rule_tac x = "u + v" in to_double_cases) (use u0 v0 round_real_nonneg [of "u + v"] max_double_pos in auto)
  then have uv: "u + v < 1 / 16" using round_real_ge [OF e16, of "u + v"] by linarith
  from U obtain w' where w: "w = Finite w'" and u: "u = round_real (w' * w')"
    by (rule dmul_eq_Finite) simp
  have "w' * w' < 1 / 16" using round_real_ge [OF e16, of "w' * w'"] u uv v0 by linarith
  have "\<bar>w'\<bar> < 1 / 4"
  proof (rule ccontr)
    assume "\<not> \<bar>w'\<bar> < 1 / 4"
    then have "1 / 4 \<le> \<bar>w'\<bar>" by simp
    then have "(1 / 4) * (1 / 4) \<le> w' * w'" by (intro sq_ge) simp_all
    then show False using \<open>w' * w' < 1 / 16\<close> by simp
  qed
  from w obtain cx' where cx: "cx = Finite cx'" and w': "w' = round_real (cx' + 1)"
    unfolding w_def by (rule dadd_eq_Finite) simp
  have em: "round_real (- (1 / 4)) = - (1 / 4)" using e4 by (rule exact_minus)
  have "cx' + 1 < 1 / 4" using round_real_ge [OF e4, of "cx' + 1"] w' \<open>\<bar>w'\<bar> < 1 / 4\<close> by linarith
  moreover have "- (1 / 4) < cx' + 1"
    using round_real_le [OF em, of "cx' + 1"] w' \<open>\<bar>w'\<bar> < 1 / 4\<close> by linarith
  ultimately have "\<bar>cx'\<bar> \<le> 5 / 4" by linarith
  then have sq: "cx' * cx' \<le> 25 / 16" using sq_le [of cx' "5 / 4"] by simp
  have e25: "round_real (25 / 16) = 25 / 16" using exact_dyadic [of 25 4] by simp
  obtain a where a: "to_double (cx' * cx') = Finite a" and a0: "0 \<le> a" and a1: "a \<le> 25 / 16"
    by (rule to_double_bounded [OF _ sq e25]) (simp_all add: max_double_def)
  have e13: "round_real (13 / 8) = 13 / 8" using exact_dyadic [of 13 3] by simp
  have "a + v \<le> 13 / 8" using a1 uv u0 by linarith
  then obtain s where s: "to_double (a + v) = Finite s" and "s \<le> 13 / 8"
    by (rule_tac x = "a + v" and B = "13 / 8" in to_double_bounded)
      (use a0 v0 e13 in \<open>simp_all add: max_double_def\<close>)
  then have "\<not> dlt (Finite 4) (dadd (dmul cx cx) (dmul cy cy))"
    using cx a V by simp
  then show False using o by (simp add: outside_disc_double_def dgt_def)
qed

lemma quarter_product:
  assumes cy: "round_real cy' = cy'" "\<bar>cy'\<bar> \<le> max_double"
    and v: "round_real (cy' * cy') \<le> max_double"
  obtains r where "dmul (dmul (Finite (1 / 4)) (Finite cy')) (Finite cy') = Finite r"
    and "r \<le> round_real (cy' * cy')"
proof -
  define s where "s = round_real (1 / 4 * cy')"
  have s: "0 \<le> s * cy' \<and> s * cy' \<le> cy' * cy' \<and> \<bar>s\<bar> \<le> \<bar>cy'\<bar>"
  proof (cases "0 \<le> cy'")
    case True
    have "0 \<le> s" unfolding s_def using True by (intro round_real_nonneg) simp
    moreover have "s \<le> cy'" unfolding s_def using True by (intro round_real_le cy(1)) simp
    ultimately show ?thesis using True by (simp add: mult_right_mono)
  next
    case False
    have em: "round_real (- cy') = - cy'" using cy(1) by (rule exact_minus)
    have "0 \<le> round_real (- (1 / 4 * cy'))" using False by (intro round_real_nonneg) simp
    then have 1: "s \<le> 0" by (simp add: s_def round_real_minus)
    have "round_real (- (1 / 4 * cy')) \<le> - cy'" using False by (intro round_real_le em) simp
    then have 2: "cy' \<le> s" by (simp add: s_def round_real_minus)
    have "0 \<le> s * cy'" using 1 False by (simp add: mult_nonpos_nonpos)
    moreover have "s * cy' \<le> cy' * cy'" using 2 False by (simp add: mult_right_mono_neg)
    ultimately show ?thesis using 1 2 False by simp
  qed
  then have "\<bar>s\<bar> \<le> max_double" using cy(2) by linarith
  then have a: "dmul (Finite (1 / 4)) (Finite cy') = Finite s"
    unfolding s_def by (simp only: dmul.simps to_double_finite)
  have 1: "0 \<le> round_real (s * cy')" using s by (intro round_real_nonneg) simp
  have 2: "round_real (s * cy') \<le> round_real (cy' * cy')" using s by (intro round_real_mono) simp
  have "\<bar>round_real (s * cy')\<bar> \<le> max_double" using 1 2 v by linarith
  then have "dmul (Finite s) (Finite cy') = Finite (round_real (s * cy'))"
    by (simp only: dmul.simps to_double_finite)
  then show ?thesis using that a 2 by simp
qed

lemma cardioid_chain:
  assumes cy: "is_double cy"
    and q: "d_ge (dadd (dmul (Finite p) (Finite p)) (dmul cy cy)) c" and c: "0 < c"
    and t: "d_ge (dadd (dadd (dmul (Finite p) (Finite p)) (dmul cy cy)) (Finite p)) 1"
  shows "\<not> dlt (dmul (dadd (dmul (Finite p) (Finite p)) (dmul cy cy))
                   (dadd (dadd (dmul (Finite p) (Finite p)) (dmul cy cy)) (Finite p)))
               (dmul (dmul (Finite (1 / 4)) cy) cy)"
proof -
  define q where "q = dadd (dmul (Finite p) (Finite p)) (dmul cy cy)"
  define tt where "tt = dadd q (Finite p)"
  have qc: "d_ge q c" using assms(2) by (simp add: q_def)
  have t1: "d_ge tt 1" using t by (simp add: tt_def q_def)
  from qc show ?thesis unfolding q_def [symmetric] tt_def [symmetric]
  proof (cases rule: d_ge_cases)
    case 1
    have "dmul q tt = PInf" using t1 1 by (cases tt) (auto simp add: d_ge_def)
    then show "\<not> dlt (dmul q tt) (dmul (dmul (Finite (1 / 4)) cy) cy)" by simp
  next
    case (2 q')
    from 2(1) obtain pp v where pp: "dmul (Finite p) (Finite p) = Finite pp"
      and V: "dmul cy cy = Finite v" and q': "q' = round_real (pp + v)"
      unfolding q_def by (rule dadd_eq_Finite)
    from V obtain cy' where cyf: "cy = Finite cy'" and v: "v = round_real (cy' * cy')"
      and vm: "\<bar>v\<bar> \<le> max_double"
      by (rule dmul_eq_Finite) simp
    have pp0: "0 \<le> pp"
      using pp by (rule dmul_eq_Finite) (simp add: round_real_nonneg)
    have v0: "0 \<le> v" unfolding v by (rule round_real_nonneg) simp
    have ev: "round_real v = v" unfolding v by (rule round_real_idem)
    have eq: "round_real q' = q'" unfolding q' by (rule round_real_idem)
    have vq: "v \<le> q'" unfolding q' using pp0 by (intro round_real_ge ev) simp
    have q0: "0 < q'" using 2(2) c by simp
    have L: "d_ge (dmul q tt) v"
      using t1
    proof (cases rule: d_ge_cases)
      case 1
      then show ?thesis using 2(1) q0 by (simp add: d_ge_def)
    next
      case (2 t')
      have "q' \<le> q' * t'" using 2(2) q0 by simp
      then have "q' \<le> round_real (q' * t')" by (rule round_real_ge [OF eq])
      then have "v \<le> round_real (q' * t')" using vq by simp
      then have "d_ge (to_double (q' * t')) v"
        using v0 max_double_pos by (intro d_ge_to_double) simp_all
      then show ?thesis using 2(1) \<open>q = Finite q'\<close> by simp
    qed
    have cyd: "round_real cy' = cy'" "\<bar>cy'\<bar> \<le> max_double"
      using cy cyf by (simp_all add: is_double_def)
    obtain r where R: "dmul (dmul (Finite (1 / 4)) cy) cy = Finite r" and rv: "r \<le> v"
      using quarter_product [OF cyd] vm v0 unfolding v cyf by (metis abs_of_nonneg)
    from L show "\<not> dlt (dmul q tt) (dmul (dmul (Finite (1 / 4)) cy) cy)"
      unfolding R by (rule d_ge_cases) (use rv in simp_all)
  qed
qed

lemma cardioid_bounds_rule:
  assumes pp: "r_pp \<le> p * p" "round_real r_pp = r_pp" "0 \<le> r_pp"
    and V: "d_ge V r_v" "0 \<le> r_v"
    and q: "round_real r_q = r_q" "r_q \<le> r_pp + r_v" "0 < r_q"
    and p: "r_p \<le> p" "1 \<le> r_q + r_p"
  shows "d_ge (dadd (dmul (Finite p) (Finite p)) V) r_q \<and>
         d_ge (dadd (dadd (dmul (Finite p) (Finite p)) V) (Finite p)) 1"
proof -
  have "r_pp \<le> round_real (p * p)" using pp(2,1) by (rule round_real_ge)
  then have 1: "d_ge (dmul (Finite p) (Finite p)) r_pp"
    using pp(3) max_double_pos by (simp add: d_ge_to_double)
  have 2: "d_ge (dadd (dmul (Finite p) (Finite p)) V) r_q"
    by (rule d_ge_dadd [OF 1 V(1) q(1,2)]) (use q(3) max_double_pos in simp)
  have 3: "d_ge (Finite p) r_p" using p(1) by (simp add: d_ge_def)
  have e1: "round_real 1 = 1" using exact_int [of 1] by simp
  have "d_ge (dadd (dadd (dmul (Finite p) (Finite p)) V) (Finite p)) 1"
    by (rule d_ge_dadd [OF 2 3 e1 p(2)]) (use max_double_pos in simp)
  then show ?thesis using 2 by simp
qed

lemma outside_square_lower:
  assumes o: "outside_disc_double (Finite cx') cy" and b: "\<bar>cx'\<bar> \<le> B"
    and e: "round_real (B * B) = B * B" and m: "B * B \<le> 4"
  shows "d_ge (dmul cy cy) (4 - B * B)"
proof -
  have sq: "cx' * cx' \<le> B * B" using b by (rule sq_le)
  obtain a where a: "to_double (cx' * cx') = Finite a" and "a \<le> B * B"
    by (rule to_double_bounded [OF _ sq e]) (use m in \<open>simp_all add: max_double_def\<close>)
  then show ?thesis using o outside_lower [of a "dmul cy cy" "B * B"]
    by (simp add: outside_disc_double_def dgt_def)
qed

lemma outside_cardioid_bounds:
  assumes o: "outside_disc_double (Finite cx') cy" and p: "p = round_real (cx' - 1 / 4)"
  shows "\<exists>c. 0 < c \<and> d_ge (dadd (dmul (Finite p) (Finite p)) (dmul cy cy)) c \<and>
             d_ge (dadd (dadd (dmul (Finite p) (Finite p)) (dmul cy cy)) (Finite p)) 1"
proof -
  have V0: "d_ge (dmul cy cy) 0" using outside_not_NaN(2) [OF o] by (rule square_d_ge)
  have e1: "round_real 1 = 1" using exact_int [of 1] by simp
  have em1: "round_real (- 1) = - 1" using exact_int [of "- 1"] by simp
  have em2: "round_real (- 2) = - 2" using exact_int [of "- 2"] by simp
  have em32: "round_real (- (3 / 2)) = - (3 / 2)" using exact_dyadic [of "- 3" 1] by simp
  have e94: "round_real (9 / 4) = 9 / 4" using exact_dyadic [of 9 2] by simp
  have e3916: "round_real (39 / 16) = 39 / 16" using exact_dyadic [of 39 4] by simp
  have e5516: "round_real (55 / 16) = 55 / 16" using exact_dyadic [of 55 4] by simp
  have e5116: "round_real (51 / 16) = 51 / 16" using exact_dyadic [of 51 4] by simp
  have e2516: "round_real (25 / 16) = 25 / 16" using exact_dyadic [of 25 4] by simp
  have e916: "round_real (9 / 16) = 9 / 16" using exact_dyadic [of 9 4] by simp
  have e4916: "round_real (49 / 16) = 49 / 16" using exact_dyadic [of 49 4] by simp
  have ep: "round_real p = p" unfolding p by (rule round_real_idem)
  consider "5 / 4 \<le> cx'" | "cx' \<le> - (7 / 4)" | "1 / 4 \<le> cx'" "cx' \<le> 5 / 4"
    | "- (3 / 4) \<le> cx'" "cx' \<le> 1 / 4" | "- (5 / 4) \<le> cx'" "cx' \<le> - (3 / 4)"
    | "- (7 / 4) \<le> cx'" "cx' \<le> - (5 / 4)"
    by linarith
  then show ?thesis
  proof cases
    case 1
    have p1: "1 \<le> p" unfolding p using 1 by (intro round_real_ge e1) simp
    then have "1 * 1 \<le> p * p" by (intro sq_ge) simp_all
    then have "d_ge (dadd (dmul (Finite p) (Finite p)) (dmul cy cy)) 1 \<and>
         d_ge (dadd (dadd (dmul (Finite p) (Finite p)) (dmul cy cy)) (Finite p)) 1"
      using p1 by (intro cardioid_bounds_rule [where r_pp = 1 and r_v = 0 and r_p = 1] V0 e1) simp_all
    then show ?thesis by (intro exI [of _ 1]) simp
  next
    case 2
    have p2: "p \<le> - 2" unfolding p using 2 by (intro round_real_le em2) simp
    have "0 \<le> p * (p + 2)" using p2 by (intro mult_nonpos_nonpos) simp_all
    then have sq: "- (2 * p) \<le> p * p" by (simp add: algebra_simps)
    have e: "round_real (- (2 * p)) = - (2 * p)" by (intro exact_minus exact_double ep)
    have "d_ge (dadd (dmul (Finite p) (Finite p)) (dmul cy cy)) (- (2 * p)) \<and>
         d_ge (dadd (dadd (dmul (Finite p) (Finite p)) (dmul cy cy)) (Finite p)) 1"
      using p2 sq by (intro cardioid_bounds_rule [where r_pp = "- (2 * p)" and r_v = 0 and r_p = p] V0 e) simp_all
    then show ?thesis using p2 by (intro exI [of _ "- (2 * p)"]) simp
  next
    case 3
    have V: "d_ge (dmul cy cy) (4 - 5 / 4 * (5 / 4))"
      by (rule outside_square_lower [OF o]) (use 3 e2516 in simp_all)
    have p0: "0 \<le> p" unfolding p using 3 by (intro round_real_nonneg) simp
    have "d_ge (dadd (dmul (Finite p) (Finite p)) (dmul cy cy)) (39 / 16) \<and>
         d_ge (dadd (dadd (dmul (Finite p) (Finite p)) (dmul cy cy)) (Finite p)) 1"
      using p0 V by (intro cardioid_bounds_rule [where r_pp = 0 and r_v = "39 / 16" and r_p = 0] e3916) simp_all
    then show ?thesis by (intro exI [of _ "39 / 16"]) simp
  next
    case 4
    have V: "d_ge (dmul cy cy) (4 - 3 / 4 * (3 / 4))"
      by (rule outside_square_lower [OF o]) (use 4 e916 in simp_all)
    have p1: "- 1 \<le> p" unfolding p using 4 by (intro round_real_ge em1) simp
    have "d_ge (dadd (dmul (Finite p) (Finite p)) (dmul cy cy)) (55 / 16) \<and>
         d_ge (dadd (dadd (dmul (Finite p) (Finite p)) (dmul cy cy)) (Finite p)) 1"
      using p1 V by (intro cardioid_bounds_rule [where r_pp = 0 and r_v = "55 / 16" and r_p = "- 1"] e5516) simp_all
    then show ?thesis by (intro exI [of _ "55 / 16"]) simp
  next
    case 5
    have V: "d_ge (dmul cy cy) (4 - 5 / 4 * (5 / 4))"
      by (rule outside_square_lower [OF o]) (use 5 e2516 in simp_all)
    have pu: "p \<le> - 1" unfolding p using 5 by (intro round_real_le em1) simp
    have pl: "- (3 / 2) \<le> p" unfolding p using 5 by (intro round_real_ge em32) simp
    have "1 * 1 \<le> p * p" using pu by (intro sq_ge) simp_all
    then have "d_ge (dadd (dmul (Finite p) (Finite p)) (dmul cy cy)) (55 / 16) \<and>
         d_ge (dadd (dadd (dmul (Finite p) (Finite p)) (dmul cy cy)) (Finite p)) 1"
      using pl V by (intro cardioid_bounds_rule [where r_pp = 1 and r_v = "39 / 16" and r_p = "- (3 / 2)"] e5516 e1) simp_all
    then show ?thesis by (intro exI [of _ "55 / 16"]) simp
  next
    case 6
    have V: "d_ge (dmul cy cy) (4 - 7 / 4 * (7 / 4))"
      by (rule outside_square_lower [OF o]) (use 6 e4916 in simp_all)
    have pu: "p \<le> - (3 / 2)" unfolding p using 6 by (intro round_real_le em32) simp
    have pl: "- 2 \<le> p" unfolding p using 6 by (intro round_real_ge em2) simp
    have "3 / 2 * (3 / 2) \<le> p * p" using pu by (intro sq_ge) simp_all
    then have "d_ge (dadd (dmul (Finite p) (Finite p)) (dmul cy cy)) (51 / 16) \<and>
         d_ge (dadd (dadd (dmul (Finite p) (Finite p)) (dmul cy cy)) (Finite p)) 1"
      using pl V by (intro cardioid_bounds_rule [where r_pp = "9 / 4" and r_v = "15 / 16" and r_p = "- 2"] e5116 e94) simp_all
    then show ?thesis by (intro exI [of _ "51 / 16"]) simp
  qed
qed

lemma dmul_PInf_self: "d_ge V 0 \<Longrightarrow> dadd PInf V = PInf"
  by (cases V) (simp_all add: d_ge_def)

lemma outside_not_cardioid:
  assumes cy: "is_double cy" and o: "outside_disc_double cx cy"
  shows "\<not> in_cardioid_double cx cy"
proof -
  have V0: "d_ge (dmul cy cy) 0" using outside_not_NaN(2) [OF o] by (rule square_d_ge)
  define p where "p = dsub cx (Finite (1 / 4))"
  have c: "in_cardioid_double cx cy \<longleftrightarrow>
      dlt (dmul (dadd (dmul p p) (dmul cy cy)) (dadd (dadd (dmul p p) (dmul cy cy)) p))
          (dmul (dmul (Finite (1 / 4)) cy) cy)"
    by (simp add: in_cardioid_double_def Let_def p_def)
  show ?thesis
  proof (cases p)
    case (Finite p')
    then obtain cx' where cx: "cx = Finite cx'" and p': "p' = round_real (cx' - 1 / 4)"
      unfolding p_def dsub_def by (rule dadd_eq_Finite) auto
    obtain c where "0 < c" and "d_ge (dadd (dmul (Finite p') (Finite p')) (dmul cy cy)) c"
      and "d_ge (dadd (dadd (dmul (Finite p') (Finite p')) (dmul cy cy)) (Finite p')) 1"
      using outside_cardioid_bounds [OF o [unfolded cx] p'] by blast
    then show ?thesis unfolding c Finite by (intro cardioid_chain cy)
  next
    case PInf
    then show ?thesis unfolding c using dmul_PInf_self [OF V0] by simp
  next
    case NInf
    then show ?thesis unfolding c using dmul_PInf_self [OF V0] by simp
  next
    case NaN
    then show ?thesis unfolding c by simp
  qed
qed

section \<open>The loop in binary64 arithmetic\<close>

text \<open>
  The loop returns a count between 1 and the cap. It follows the computed
  orbit and stops one application after the first iterate whose computed
  squared modulus fails the test, or at the cap. An orbit from coordinates
  that are not NaN never becomes NaN before it has failed the test.
\<close>

declare escape_loop_double.simps [simp del]

lemma escape_loop_double_bounds:
  "n + 1 \<le> escape_loop_double cx cy m zx zy n \<and> escape_loop_double cx cy m zx zy n \<le> max (n + 1) m"
proof (induction cx cy m zx zy n rule: escape_loop_double.induct)
  case (1 cx cy max_iter zx zy n)
  show ?case
  proof (cases "dle (dadd (dmul zx zx) (dmul zy zy)) (Finite 4) \<and> n + 1 < max_iter")
    case True
    then show ?thesis
      using "1.IH" [OF refl refl refl refl refl]
      by (subst escape_loop_double.simps, subst (2) escape_loop_double.simps) (auto simp add: Let_def)
  next
    case False
    then show ?thesis
      by (subst escape_loop_double.simps, subst (2) escape_loop_double.simps) (auto simp add: Let_def)
  qed
qed

lemma escape_loop_double_step:
  "escape_loop_double cx cy m zx zy n =
     (if dle (dadd (dmul zx zx) (dmul zy zy)) (Finite 4) \<and> n + 1 < m
      then escape_loop_double cx cy m (dadd (dsub (dmul zx zx) (dmul zy zy)) cx)
             (dadd (dmul (dmul (Finite 2) zx) zy) cy) (n + 1)
      else n + 1)"
  by (subst escape_loop_double.simps) (simp add: Let_def)

lemma is_double_Finite: "round_real x = x \<Longrightarrow> \<bar>x\<bar> \<le> max_double \<Longrightarrow> is_double (Finite x)"
  by (simp add: is_double_def)

lemma is_double_dyadic:
  assumes "\<bar>k\<bar> < 2 ^ 53" and "n \<le> 1074"
  shows "is_double (Finite (real_of_int k / 2 ^ n))"
  using to_double_dyadic [OF assms] is_double_to_double [of "real_of_int k / 2 ^ n"] by simp

lemma escape_loop_double_orbit_step:
  "escape_loop_double cx cy m (fst (orbit_double cx cy k)) (snd (orbit_double cx cy k)) (int k) =
     (if \<not> escaped_double cx cy k \<and> int k + 1 < m
      then escape_loop_double cx cy m (fst (orbit_double cx cy (Suc k)))
             (snd (orbit_double cx cy (Suc k))) (int (Suc k))
      else int k + 1)"
  by (subst escape_loop_double_step)
    (simp add: escaped_double_def modulus2_double_def case_prod_unfold Let_def add.commute)

lemma escape_loop_double_escapes:
  "(\<And>j. k \<le> j \<Longrightarrow> j < k + d \<Longrightarrow> \<not> escaped_double cx cy j) \<Longrightarrow> escaped_double cx cy (k + d) \<Longrightarrow>
   int (k + d) + 1 < m \<Longrightarrow>
   escape_loop_double cx cy m (fst (orbit_double cx cy k)) (snd (orbit_double cx cy k)) (int k)
     = int (k + d) + 1"
proof (induction d arbitrary: k)
  case 0
  then show ?case by (subst escape_loop_double_orbit_step) simp
next
  case (Suc d)
  have ne: "\<not> escaped_double cx cy k" using Suc.prems(1) [of k] by simp
  have lt: "int k + 1 < m" using Suc.prems(3) by simp
  have "escape_loop_double cx cy m (fst (orbit_double cx cy (Suc k)))
          (snd (orbit_double cx cy (Suc k))) (int (Suc k)) = int (Suc k + d) + 1"
  proof (rule Suc.IH)
    fix j assume "Suc k \<le> j" "j < Suc k + d"
    then show "\<not> escaped_double cx cy j" using Suc.prems(1) [of j] by simp
  next
    show "escaped_double cx cy (Suc k + d)" using Suc.prems(2) by simp
  next
    show "int (Suc k + d) + 1 < m" using Suc.prems(3) by simp
  qed
  then show ?case using ne lt by (subst escape_loop_double_orbit_step) simp
qed

lemma escape_loop_double_exhausts:
  "(\<And>j. k \<le> j \<Longrightarrow> int j + 1 < m \<Longrightarrow> \<not> escaped_double cx cy j) \<Longrightarrow> int k < m \<Longrightarrow>
   escape_loop_double cx cy m (fst (orbit_double cx cy k)) (snd (orbit_double cx cy k)) (int k) = m"
proof (induction "nat (m - int k)" arbitrary: k)
  case 0
  then show ?case by simp
next
  case (Suc x)
  show ?case
  proof (cases "int k + 1 < m")
    case True
    have ne: "\<not> escaped_double cx cy k" using Suc.prems(1) [of k] True by simp
    have "escape_loop_double cx cy m (fst (orbit_double cx cy (Suc k)))
            (snd (orbit_double cx cy (Suc k))) (int (Suc k)) = m"
    proof (rule Suc.hyps(1))
      show "x = nat (m - int (Suc k))" using Suc.hyps(2) by simp
    next
      fix j assume "Suc k \<le> j" "int j + 1 < m"
      then show "\<not> escaped_double cx cy j" using Suc.prems(1) [of j] by simp
    next
      show "int (Suc k) < m" using True by simp
    qed
    then show ?thesis using ne True by (subst escape_loop_double_orbit_step) simp
  next
    case False
    then show ?thesis using Suc.prems(2) by (subst escape_loop_double_orbit_step) simp
  qed
qed

lemma not_escaped_double_0: "\<not> escaped_double cx cy 0"
  by (simp add: escaped_double_def modulus2_double_def)

lemma escape_loop_double_from_zero:
  assumes m: "1 \<le> m"
  shows "escape_loop_double cx cy m (Finite 0) (Finite 0) 0 =
     (if \<exists>k. 1 \<le> k \<and> escaped_double cx cy k
      then min (int (LEAST k. 1 \<le> k \<and> escaped_double cx cy k) + 1) m
      else m)"
proof (cases "\<exists>k. 1 \<le> k \<and> escaped_double cx cy k")
  case True
  define k0 where "k0 = (LEAST k. 1 \<le> k \<and> escaped_double cx cy k)"
  have k0: "1 \<le> k0 \<and> escaped_double cx cy k0"
    unfolding k0_def using True by (rule LeastI_ex)
  have least: "\<not> escaped_double cx cy j" if "j < k0" for j
  proof (cases "j = 0")
    case True
    then show ?thesis by (simp add: not_escaped_double_0)
  next
    case False
    then show ?thesis using not_less_Least [of j "\<lambda>k. 1 \<le> k \<and> escaped_double cx cy k"] that
      by (simp add: k0_def)
  qed
  have "escape_loop_double cx cy m (fst (orbit_double cx cy 0)) (snd (orbit_double cx cy 0)) (int 0)
      = min (int k0 + 1) m"
  proof (cases "int k0 + 1 < m")
    case True
    have "escape_loop_double cx cy m (fst (orbit_double cx cy 0)) (snd (orbit_double cx cy 0)) (int 0)
        = int (0 + k0) + 1"
      by (rule escape_loop_double_escapes) (use least k0 True in auto)
    then show ?thesis using True by simp
  next
    case False
    have "escape_loop_double cx cy m (fst (orbit_double cx cy 0)) (snd (orbit_double cx cy 0)) (int 0) = m"
      by (rule escape_loop_double_exhausts) (use least False m in auto)
    then show ?thesis using False by simp
  qed
  then show ?thesis using True by (simp add: k0_def)
next
  case False
  have "escape_loop_double cx cy m (fst (orbit_double cx cy 0)) (snd (orbit_double cx cy 0)) (int 0) = m"
  proof (rule escape_loop_double_exhausts)
    fix j assume "int j + 1 < m"
    show "\<not> escaped_double cx cy j"
      using False not_escaped_double_0 [of cx cy] by (cases "j = 0") auto
  next
    show "int 0 < m" using m by simp
  qed
  then show ?thesis using False by auto
qed

lemma square_Finite_bounded:
  assumes "\<bar>x\<bar> \<le> b" and "round_real (b * b) = b * b" and "b * b \<le> max_double"
  obtains a where "dmul (Finite x) (Finite x) = Finite a" and "0 \<le> a" and "a \<le> b * b"
proof -
  have "x * x \<le> b * b" using assms(1) by (rule sq_le)
  then obtain a where "to_double (x * x) = Finite a" "0 \<le> a" "a \<le> b * b"
    by (rule_tac x = "x * x" and B = "b * b" in to_double_bounded) (use assms in simp_all)
  then show ?thesis using that by simp
qed

lemma test_passes_bounded:
  assumes "dle (dadd (dmul zx zx) (dmul zy zy)) (Finite 4)"
  obtains x y where "zx = Finite x" and "zy = Finite y" and "\<bar>x\<bar> \<le> 3" and "\<bar>y\<bar> \<le> 3"
proof -
  have nx: "zx \<noteq> NaN" using assms by (auto simp add: )
  have ny: "zy \<noteq> NaN"
  proof
    assume "zy = NaN"
    then have "dadd (dmul zx zx) (dmul zy zy) = NaN" by simp
    then show False using assms by simp
  qed
  have e0: "round_real 0 = 0" by simp
  have "d_ge (dadd (dmul zx zx) (dmul zy zy)) 0"
    by (rule d_ge_dadd [OF square_d_ge [OF nx] square_d_ge [OF ny] e0]) (use max_double_pos in simp_all)
  with assms obtain s where S: "dadd (dmul zx zx) (dmul zy zy) = Finite s" and s4: "s \<le> 4"
    by (cases "dadd (dmul zx zx) (dmul zy zy)") (simp_all add: d_ge_def)
  from S obtain a b where a: "dmul zx zx = Finite a" and b: "dmul zy zy = Finite b"
    and s: "s = round_real (a + b)"
    by (rule dadd_eq_Finite)
  from a obtain x where x: "zx = Finite x" and ax: "a = round_real (x * x)" by (rule dmul_eq_Finite) simp
  from b obtain y where y: "zy = Finite y" and b_eq: "b = round_real (y * y)" by (rule dmul_eq_Finite) simp
  have a0: "0 \<le> a" unfolding ax by (rule round_real_nonneg) simp
  have b0: "0 \<le> b" unfolding b_eq by (rule round_real_nonneg) simp
  have e5: "round_real 5 = 5" using exact_int [of 5] by simp
  have e9: "round_real 9 = 9" using exact_int [of 9] by simp
  have ab: "a + b < 5" using round_real_ge [OF e5, of "a + b"] s s4 by linarith
  have bound: "\<bar>v\<bar> \<le> 3" if "round_real (v * v) < 5" for v :: real
  proof (rule ccontr)
    assume "\<not> \<bar>v\<bar> \<le> 3"
    then have "3 * 3 \<le> v * v" by (intro sq_ge) simp_all
    then have "9 \<le> round_real (v * v)" by (intro round_real_ge e9) simp
    then show False using that by simp
  qed
  have "\<bar>x\<bar> \<le> 3" using ab b0 ax by (intro bound) simp
  moreover have "\<bar>y\<bar> \<le> 3" using ab a0 b_eq by (intro bound) simp
  ultimately show ?thesis using that x y by blast
qed

lemma step_stays_finite:
  assumes "\<bar>x\<bar> \<le> 3" and "\<bar>y\<bar> \<le> 3" and "\<bar>c1\<bar> \<le> 3" and "\<bar>c2\<bar> \<le> 3"
  obtains x' y' where
    "dadd (dsub (dmul (Finite x) (Finite x)) (dmul (Finite y) (Finite y))) (Finite c1) = Finite x'"
    and "dadd (dmul (dmul (Finite 2) (Finite x)) (Finite y)) (Finite c2) = Finite y'"
    and "\<bar>x'\<bar> \<le> 64" and "\<bar>y'\<bar> \<le> 64"
proof -
  have e9: "round_real (3 * 3) = 3 * 3" using exact_int [of 9] by simp
  have e16: "round_real 16 = 16" using exact_int [of 16] by simp
  have e64: "round_real 64 = 64" using exact_int [of 64] by simp
  have e8: "round_real 8 = 8" using exact_int [of 8] by simp
  have e32: "round_real 32 = 32" using exact_int [of 32] by simp
  obtain a where a: "dmul (Finite x) (Finite x) = Finite a" "0 \<le> a" "a \<le> 3 * 3"
    by (rule square_Finite_bounded [OF assms(1) e9]) (simp add: max_double_def)
  obtain b where b: "dmul (Finite y) (Finite y) = Finite b" "0 \<le> b" "b \<le> 3 * 3"
    by (rule square_Finite_bounded [OF assms(2) e9]) (simp add: max_double_def)
  obtain d where d: "to_double (a + - b) = Finite d" "\<bar>d\<bar> \<le> 16"
    by (rule to_double_abs_bounded [of "a + - b" 16]) (use a b e16 in \<open>simp_all add: max_double_def\<close>)
  obtain x' where x': "to_double (d + c1) = Finite x'" "\<bar>x'\<bar> \<le> 64"
    by (rule to_double_abs_bounded [of "d + c1" 64]) (use d assms(3) e64 in \<open>simp_all add: max_double_def\<close>)
  obtain u where u: "to_double (2 * x) = Finite u" "\<bar>u\<bar> \<le> 8"
    by (rule to_double_abs_bounded [of "2 * x" 8]) (use assms(1) e8 in \<open>simp_all add: max_double_def\<close>)
  have "\<bar>u * y\<bar> \<le> 8 * 3" unfolding abs_mult using u(2) assms(2) by (intro mult_mono) simp_all
  then obtain w where w: "to_double (u * y) = Finite w" "\<bar>w\<bar> \<le> 32"
    by (rule_tac v = "u * y" and B = 32 in to_double_abs_bounded) (use e32 in \<open>simp_all add: max_double_def\<close>)
  obtain y' where y': "to_double (w + c2) = Finite y'" "\<bar>y'\<bar> \<le> 64"
    by (rule to_double_abs_bounded [of "w + c2" 64]) (use w assms(4) e64 in \<open>simp_all add: max_double_def\<close>)
  show ?thesis
    using that [of x' y'] a b d x' u w y' by (simp add: dsub_def)
qed

lemma modulus_Finite:
  assumes "\<bar>x\<bar> \<le> 64" and "\<bar>y\<bar> \<le> 64"
  obtains s where "dadd (dmul (Finite x) (Finite x)) (dmul (Finite y) (Finite y)) = Finite s"
proof -
  have e: "round_real (64 * 64) = 64 * 64" using exact_int [of 4096] by simp
  have e2: "round_real 8192 = 8192" using exact_int [of 8192] by simp
  obtain a where a: "dmul (Finite x) (Finite x) = Finite a" "0 \<le> a" "a \<le> 64 * 64"
    by (rule square_Finite_bounded [OF assms(1) e]) (simp add: max_double_def)
  obtain b where b: "dmul (Finite y) (Finite y) = Finite b" "0 \<le> b" "b \<le> 64 * 64"
    by (rule square_Finite_bounded [OF assms(2) e]) (simp add: max_double_def)
  obtain s where "to_double (a + b) = Finite s" "\<bar>s\<bar> \<le> 8192"
    by (rule to_double_abs_bounded [of "a + b" 8192]) (use a b e2 in \<open>simp_all add: max_double_def\<close>)
  then show ?thesis using that a b by simp
qed

lemma orbit_double_finite:
  assumes c: "cx \<noteq> NaN" "cy \<noteq> NaN" "\<not> outside_disc_double cx cy"
    and prev: "\<And>j. j < k \<Longrightarrow> \<not> escaped_double cx cy j"
  obtains x y where "orbit_double cx cy k = (Finite x, Finite y)" and "\<bar>x\<bar> \<le> 64" and "\<bar>y\<bar> \<le> 64"
proof (cases k)
  case 0
  then show ?thesis using that [of 0 0] by simp
next
  case (Suc j)
  have e0: "round_real 0 = 0" by simp
  have "d_ge (dadd (dmul cx cx) (dmul cy cy)) 0"
    by (rule d_ge_dadd [OF square_d_ge [OF c(1)] square_d_ge [OF c(2)] e0]) (use max_double_pos in simp_all)
  then have "dle (dadd (dmul cx cx) (dmul cy cy)) (Finite 4)"
    using c(3) by (cases "dadd (dmul cx cx) (dmul cy cy)") (simp_all add: outside_disc_double_def dgt_def d_ge_def)
  then obtain c1 c2 where cc: "cx = Finite c1" "cy = Finite c2" "\<bar>c1\<bar> \<le> 3" "\<bar>c2\<bar> \<le> 3"
    by (rule test_passes_bounded)
  obtain zx zy where z: "orbit_double cx cy j = (zx, zy)" by (cases "orbit_double cx cy j")
  have "\<not> escaped_double cx cy j" using prev [of j] Suc by simp
  then have "dle (dadd (dmul zx zx) (dmul zy zy)) (Finite 4)"
    by (simp add: escaped_double_def modulus2_double_def z)
  then obtain x y where xy: "zx = Finite x" "zy = Finite y" "\<bar>x\<bar> \<le> 3" "\<bar>y\<bar> \<le> 3"
    by (rule test_passes_bounded)
  obtain x' y' where
    "dadd (dsub (dmul (Finite x) (Finite x)) (dmul (Finite y) (Finite y))) (Finite c1) = Finite x'"
    "dadd (dmul (dmul (Finite 2) (Finite x)) (Finite y)) (Finite c2) = Finite y'"
    "\<bar>x'\<bar> \<le> 64" "\<bar>y'\<bar> \<le> 64"
    by (rule step_stays_finite [OF xy(3,4) cc(3,4)])
  then show ?thesis using that [of x' y'] Suc z xy cc by simp
qed

lemma escaped_double_iff_greater:
  assumes c: "cx \<noteq> NaN" "cy \<noteq> NaN" "\<not> outside_disc_double cx cy"
    and prev: "\<And>j. j < k \<Longrightarrow> \<not> escaped_double cx cy j"
  shows "escaped_double cx cy k \<longleftrightarrow> dgt (modulus2_double cx cy k) (Finite 4.0)"
proof -
  obtain x y where o: "orbit_double cx cy k = (Finite x, Finite y)" and b: "\<bar>x\<bar> \<le> 64" "\<bar>y\<bar> \<le> 64"
    using c prev by (rule orbit_double_finite)
  obtain s where "dadd (dmul (Finite x) (Finite x)) (dmul (Finite y) (Finite y)) = Finite s"
    using b by (rule modulus_Finite)
  then have "modulus2_double cx cy k = Finite s" by (simp add: modulus2_double_def o)
  then show ?thesis by (auto simp add: escaped_double_def dgt_def)
qed

lemma exceeds_imp_escaped: "exceeds_double cx cy k \<Longrightarrow> escaped_double cx cy k"
  by (cases "modulus2_double cx cy k") (simp_all add: exceeds_double_def escaped_double_def dgt_def)

lemma first_escape_exceeds:
  assumes c: "cx \<noteq> NaN" "cy \<noteq> NaN" "\<not> outside_disc_double cx cy"
  shows "(if \<exists>k. 1 \<le> k \<and> escaped_double cx cy k
          then min (int (LEAST k. 1 \<le> k \<and> escaped_double cx cy k) + 1) m else m)
       = (if \<exists>k. 1 \<le> k \<and> exceeds_double cx cy k
          then min (int (LEAST k. 1 \<le> k \<and> exceeds_double cx cy k) + 1) m else m)"
proof (cases "\<exists>k. 1 \<le> k \<and> escaped_double cx cy k")
  case True
  define k0 where "k0 = (LEAST k. 1 \<le> k \<and> escaped_double cx cy k)"
  have k0: "1 \<le> k0 \<and> escaped_double cx cy k0" unfolding k0_def using True by (rule LeastI_ex)
  have before: "\<not> escaped_double cx cy j" if "j < k0" for j
  proof (cases "j = 0")
    case True
    then show ?thesis by (simp add: not_escaped_double_0)
  next
    case False
    then show ?thesis using not_less_Least [of j "\<lambda>k. 1 \<le> k \<and> escaped_double cx cy k"] that
      by (simp add: k0_def)
  qed
  have ex: "exceeds_double cx cy k0"
    using escaped_double_iff_greater [OF c, of k0] before k0 by (simp add: exceeds_double_def)
  have "(LEAST k. 1 \<le> k \<and> exceeds_double cx cy k) = k0"
  proof (rule Least_equality)
    show "1 \<le> k0 \<and> exceeds_double cx cy k0" using k0 ex by simp
  next
    fix y assume "1 \<le> y \<and> exceeds_double cx cy y"
    then have "1 \<le> y \<and> escaped_double cx cy y" using exceeds_imp_escaped by blast
    then show "k0 \<le> y" unfolding k0_def by (rule Least_le)
  qed
  moreover have "\<exists>k. 1 \<le> k \<and> exceeds_double cx cy k" using k0 ex by blast
  ultimately show ?thesis using True by (simp add: k0_def)
next
  case False
  then have "\<not> (\<exists>k. 1 \<le> k \<and> exceeds_double cx cy k)" using exceeds_imp_escaped by blast
  then show ?thesis using False by auto
qed

lemma escape_loop_double_conj:
  "escape_loop_double cx (dneg cy) m zx (dneg zy) n = escape_loop_double cx cy m zx zy n"
proof (induction cx cy m zx zy n rule: escape_loop_double.induct)
  case (1 cx cy max_iter zx zy n)
  have sq: "dmul (dneg zy) (dneg zy) = dmul zy zy" by (simp add: dmul_dneg_right dmul_dneg_left)
  have im: "dadd (dmul (dmul (Finite 2) zx) (dneg zy)) (dneg cy)
      = dneg (dadd (dmul (dmul (Finite 2) zx) zy) cy)"
    by (simp add: dmul_dneg_right dadd_dneg)
  show ?case
  proof (cases "dle (dadd (dmul zx zx) (dmul zy zy)) (Finite 4) \<and> n + 1 < max_iter")
    case True
    have "escape_loop_double cx (dneg cy) max_iter (dadd (dsub (dmul zx zx) (dmul zy zy)) cx)
            (dneg (dadd (dmul (dmul (Finite 2) zx) zy) cy)) (n + 1)
          = escape_loop_double cx cy max_iter (dadd (dsub (dmul zx zx) (dmul zy zy)) cx)
            (dadd (dmul (dmul (Finite 2) zx) zy) cy) (n + 1)"
      using "1.IH" [OF refl refl refl refl refl] True by simp
    then show ?thesis
      using True
      by (subst escape_loop_double_step, subst (2) escape_loop_double_step) (simp add: sq im)
  next
    case False
    then show ?thesis
      by (subst escape_loop_double_step, subst (2) escape_loop_double_step) (auto simp add: sq)
  qed
qed

lemma mandelbrotEscape_double_conj:
  "mandelbrotEscape_double cx (dneg cy) m = mandelbrotEscape_double cx cy m"
proof -
  have z: "dneg (Finite 0) = Finite 0" by simp
  show ?thesis
    using escape_loop_double_conj [of cx cy m "Finite 0" "Finite 0" 0]
    unfolding z
    by (simp add: mandelbrotEscape_double_def in_cardioid_double_def in_bulb_double_def
        outside_disc_double_def dmul_dneg_right dmul_dneg_left)
qed

section \<open>Runs of the evaluator\<close>

text \<open>The run of the evaluator at \<open>c = 2 + 2\<^sup>-\<^sup>2\<^sup>6 i\<close>.\<close>

lemma near_two_tests:
  "\<not> in_cardioid_double (Finite 2) (Finite (1 / 2 ^ 26))"
  "\<not> in_bulb_double (Finite 2) (Finite (1 / 2 ^ 26))"
  "\<not> outside_disc_double (Finite 2) (Finite (1 / 2 ^ 26))"
proof -
  have yy: "dmul (Finite (1 / 2 ^ 26)) (Finite (1 / 2 ^ 26)) = Finite (1 / 2 ^ 52)"
    using to_double_dyadic [of 1 52] by simp
  have p: "dsub (Finite 2) (Finite 0.25) = Finite (7 / 4)"
    using to_double_dyadic [of 7 2] by (simp add: dsub_def)
  have pp: "dmul (Finite (7 / 4)) (Finite (7 / 4)) = Finite (49 / 16)"
    using to_double_dyadic [of 49 4] by simp
  have q: "dadd (Finite (49 / 16)) (Finite (1 / 2 ^ 52)) = Finite (49 / 16)"
    using to_double_eval [of 1 "49 / 16 + 1 / 2 ^ 52"] by (simp add: round_ties_even_def)
  have t: "dadd (Finite (49 / 16)) (Finite (7 / 4)) = Finite (77 / 16)"
    using to_double_dyadic [of 77 4] by simp
  have L: "dmul (Finite (49 / 16)) (Finite (77 / 16)) = Finite (3773 / 256)"
    using to_double_dyadic [of 3773 8] by simp
  have s: "dmul (Finite 0.25) (Finite (1 / 2 ^ 26)) = Finite (1 / 2 ^ 28)"
    using to_double_dyadic [of 1 28] by simp
  have R: "dmul (Finite (1 / 2 ^ 28)) (Finite (1 / 2 ^ 26)) = Finite (1 / 2 ^ 54)"
    using to_double_dyadic [of 1 54] by simp
  show "\<not> in_cardioid_double (Finite 2) (Finite (1 / 2 ^ 26))"
    unfolding in_cardioid_double_def Let_def p pp yy q t L s R by simp
  have w: "dadd (Finite 2) (Finite 1) = Finite 3" using to_double_int [of 3] by simp
  have ww: "dmul (Finite 3) (Finite 3) = Finite 9" using to_double_int [of 9] by simp
  have B: "dadd (Finite 9) (Finite (1 / 2 ^ 52)) = Finite 9"
    using to_double_eval [of 3 "9 + 1 / 2 ^ 52"] by (simp add: round_ties_even_def)
  show "\<not> in_bulb_double (Finite 2) (Finite (1 / 2 ^ 26))"
    unfolding in_bulb_double_def w ww yy B by simp
  have xx: "dmul (Finite 2) (Finite 2) = Finite 4" using to_double_int [of 4] by simp
  have S: "dadd (Finite 4) (Finite (1 / 2 ^ 52)) = Finite 4"
    using to_double_eval [of 2 "4 + 1 / 2 ^ 52"] by (simp add: round_ties_even_def)
  show "\<not> outside_disc_double (Finite 2) (Finite (1 / 2 ^ 26))"
    unfolding outside_disc_double_def dgt_def xx yy S by simp
qed

lemma near_two_loop:
  "escape_loop_double (Finite 2) (Finite (1 / 2 ^ 26)) 100 (Finite 0) (Finite 0) 0 = 3"
proof -
  have S: "to_double (4 + 1 / 2 ^ 52) = Finite 4"
    using to_double_eval [of 2 "4 + 1 / 2 ^ 52"] by (simp add: round_ties_even_def)
  have D: "to_double (4 - 1 / 2 ^ 52) = Finite 4"
    using to_double_eval [of 1 "4 - 1 / 2 ^ 52"] by (simp add: round_ties_even_def)
  have S3: "to_double (36 + 25 / 2 ^ 52) = Finite (36 + 1 / 2 ^ 47)"
    using to_double_eval [of 5 "36 + 25 / 2 ^ 52"] by (simp add: round_ties_even_def)
  note exact = to_double_dyadic [of 1 26, simplified] to_double_int [of 2, simplified]
    to_double_int [of 4, simplified] to_double_dyadic [of 1 52, simplified]
    to_double_int [of 6, simplified] to_double_dyadic [of 1 24, simplified]
    to_double_dyadic [of 5 26, simplified] to_double_int [of 36, simplified]
    to_double_dyadic [of 25 52, simplified]
  note rounded = S [simplified] D [simplified] S3 [simplified]
  have step1: "escape_loop_double (Finite 2) (Finite (1 / 2 ^ 26)) 100 (Finite 0) (Finite 0) 0
      = escape_loop_double (Finite 2) (Finite (1 / 2 ^ 26)) 100 (Finite 2) (Finite (1 / 2 ^ 26)) 1"
    by (subst escape_loop_double_step) (simp add: dsub_def exact)
  have step2: "escape_loop_double (Finite 2) (Finite (1 / 2 ^ 26)) 100 (Finite 2) (Finite (1 / 2 ^ 26)) 1
      = escape_loop_double (Finite 2) (Finite (1 / 2 ^ 26)) 100 (Finite 6) (Finite (5 / 2 ^ 26)) 2"
    by (subst escape_loop_double_step) (simp add: dsub_def exact rounded)
  have step3: "escape_loop_double (Finite 2) (Finite (1 / 2 ^ 26)) 100 (Finite 6) (Finite (5 / 2 ^ 26)) 2 = 3"
    by (subst escape_loop_double_step) (simp add: dsub_def exact rounded)
  show ?thesis by (simp only: step1 step2 step3)
qed

text \<open>The run of the evaluator at \<open>c = 1 + i\<close>, where every operation is exact.\<close>

lemma one_plus_i:
  "\<not> in_cardioid_double (Finite 1) (Finite 1)"
  "\<not> in_bulb_double (Finite 1) (Finite 1)"
  "\<not> outside_disc_double (Finite 1) (Finite 1)"
  "escape_loop_double (Finite 1) (Finite 1) 100 (Finite 0) (Finite 0) 0 = 3"
  "orbit_double (Finite 1) (Finite 1) 1 = (Finite 1, Finite 1)"
  "orbit_double (Finite 1) (Finite 1) 2 = (Finite 1, Finite 3)"
proof -
  note exact = to_double_int [of 1, simplified] to_double_int [of 2, simplified]
    to_double_int [of 3, simplified] to_double_int [of 4, simplified]
    to_double_int [of 5, simplified] to_double_int [of 9, simplified]
    to_double_int [of 10, simplified] to_double_dyadic [of 3 2, simplified]
    to_double_dyadic [of 9 4, simplified] to_double_dyadic [of 25 4, simplified]
    to_double_dyadic [of 37 4, simplified] to_double_dyadic [of 925 8, simplified]
    to_double_dyadic [of 1 2, simplified]
  show "\<not> in_cardioid_double (Finite 1) (Finite 1)"
    by (simp add: in_cardioid_double_def Let_def dsub_def exact)
  show "\<not> in_bulb_double (Finite 1) (Finite 1)"
    by (simp add: in_bulb_double_def exact)
  show "\<not> outside_disc_double (Finite 1) (Finite 1)"
    by (simp add: outside_disc_double_def dgt_def exact)
  have step1: "escape_loop_double (Finite 1) (Finite 1) 100 (Finite 0) (Finite 0) 0
      = escape_loop_double (Finite 1) (Finite 1) 100 (Finite 1) (Finite 1) 1"
    by (subst escape_loop_double_step) (simp add: dsub_def exact)
  have step2: "escape_loop_double (Finite 1) (Finite 1) 100 (Finite 1) (Finite 1) 1
      = escape_loop_double (Finite 1) (Finite 1) 100 (Finite 1) (Finite 3) 2"
    by (subst escape_loop_double_step) (simp add: dsub_def exact)
  have step3: "escape_loop_double (Finite 1) (Finite 1) 100 (Finite 1) (Finite 3) 2 = 3"
    by (subst escape_loop_double_step) (simp add: dsub_def exact)
  show "escape_loop_double (Finite 1) (Finite 1) 100 (Finite 0) (Finite 0) 0 = 3"
    by (simp only: step1 step2 step3)
  show o1: "orbit_double (Finite 1) (Finite 1) 1 = (Finite 1, Finite 1)"
    by (simp add: dsub_def exact)
  have "orbit_double (Finite 1) (Finite 1) (Suc 1) = (Finite 1, Finite 3)"
    by (simp only: orbit_double.simps(2) o1) (simp add: dsub_def exact)
  then show "orbit_double (Finite 1) (Finite 1) 2 = (Finite 1, Finite 3)"
    by (simp add: numeral_2_eq_2)
qed

text \<open>The run of the evaluator at \<open>c = 1 + 2\<^sup>-\<^sup>3\<^sup>0 i\<close>.\<close>

lemma near_one:
  "\<not> in_cardioid_double (Finite 1) (Finite (1 / 2 ^ 30))"
  "\<not> in_bulb_double (Finite 1) (Finite (1 / 2 ^ 30))"
  "\<not> outside_disc_double (Finite 1) (Finite (1 / 2 ^ 30))"
  "escape_loop_double (Finite 1) (Finite (1 / 2 ^ 30)) 100 (Finite 0) (Finite 0) 0 = 4"
  "escaped_double (Finite 1) (Finite (1 / 2 ^ 30)) 3"
proof -
  have r1: "to_double (9 / 16 + 1 / 2 ^ 60) = Finite (9 / 16)"
    using to_double_eval [of "- 1" "9 / 16 + 1 / 2 ^ 60"] by (simp add: round_ties_even_def)
  have r2: "to_double (4 + 1 / 2 ^ 60) = Finite 4"
    using to_double_eval [of 2 "4 + 1 / 2 ^ 60"] by (simp add: round_ties_even_def)
  have r3: "to_double (1 + 1 / 2 ^ 60) = Finite 1"
    using to_double_eval [of 0 "1 + 1 / 2 ^ 60"] by (simp add: round_ties_even_def)
  have r4: "to_double (1 - 1 / 2 ^ 60) = Finite 1"
    using to_double_eval [of "- 1" "1 - 1 / 2 ^ 60"] by (simp add: round_ties_even_def)
  have r5: "to_double (4 + 9 / 2 ^ 60) = Finite 4"
    using to_double_eval [of 2 "4 + 9 / 2 ^ 60"] by (simp add: round_ties_even_def)
  have r6: "to_double (4 - 9 / 2 ^ 60) = Finite 4"
    using to_double_eval [of 1 "4 - 9 / 2 ^ 60"] by (simp add: round_ties_even_def)
  have r7: "to_double (25 + 169 / 2 ^ 60) = Finite 25"
    using to_double_eval [of 4 "25 + 169 / 2 ^ 60"] by (simp add: round_ties_even_def)
  note rounded = r1 [simplified] r2 [simplified] r3 [simplified] r4 [simplified]
    r5 [simplified] r6 [simplified] r7 [simplified]
  note exact = to_double_int [of 1, simplified] to_double_int [of 2, simplified]
    to_double_int [of 4, simplified] to_double_int [of 5, simplified]
    to_double_int [of 25, simplified]
    to_double_dyadic [of 3 2, simplified] to_double_dyadic [of 9 4, simplified]
    to_double_dyadic [of 21 4, simplified] to_double_dyadic [of 189 8, simplified]
    to_double_dyadic [of 1 2, simplified]
    to_double_dyadic [of 1 60, simplified] to_double_dyadic [of 1 32, simplified]
    to_double_dyadic [of 1 62, simplified] to_double_dyadic [of 1 30, simplified]
    to_double_dyadic [of 1 29, simplified] to_double_dyadic [of 3 30, simplified]
    to_double_dyadic [of 9 60, simplified] to_double_dyadic [of 3 28, simplified]
    to_double_dyadic [of 13 30, simplified] to_double_dyadic [of 169 60, simplified]
  show "\<not> in_cardioid_double (Finite 1) (Finite (1 / 2 ^ 30))"
    by (simp add: in_cardioid_double_def Let_def dsub_def exact rounded)
  show "\<not> in_bulb_double (Finite 1) (Finite (1 / 2 ^ 30))"
    by (simp add: in_bulb_double_def exact rounded)
  show "\<not> outside_disc_double (Finite 1) (Finite (1 / 2 ^ 30))"
    by (simp add: outside_disc_double_def dgt_def exact rounded)
  have step1: "escape_loop_double (Finite 1) (Finite (1 / 2 ^ 30)) 100 (Finite 0) (Finite 0) 0
      = escape_loop_double (Finite 1) (Finite (1 / 2 ^ 30)) 100 (Finite 1) (Finite (1 / 2 ^ 30)) 1"
    by (subst escape_loop_double_step) (simp add: dsub_def exact rounded)
  have step2: "escape_loop_double (Finite 1) (Finite (1 / 2 ^ 30)) 100 (Finite 1) (Finite (1 / 2 ^ 30)) 1
      = escape_loop_double (Finite 1) (Finite (1 / 2 ^ 30)) 100 (Finite 2) (Finite (3 / 2 ^ 30)) 2"
    by (subst escape_loop_double_step) (simp add: dsub_def exact rounded)
  have step3: "escape_loop_double (Finite 1) (Finite (1 / 2 ^ 30)) 100 (Finite 2) (Finite (3 / 2 ^ 30)) 2
      = escape_loop_double (Finite 1) (Finite (1 / 2 ^ 30)) 100 (Finite 5) (Finite (13 / 2 ^ 30)) 3"
    by (subst escape_loop_double_step) (simp add: dsub_def exact rounded)
  have step4: "escape_loop_double (Finite 1) (Finite (1 / 2 ^ 30)) 100 (Finite 5) (Finite (13 / 2 ^ 30)) 3 = 4"
    by (subst escape_loop_double_step) (simp add: dsub_def exact rounded)
  show "escape_loop_double (Finite 1) (Finite (1 / 2 ^ 30)) 100 (Finite 0) (Finite 0) 0 = 4"
    by (simp only: step1 step2 step3 step4)
  have "orbit_double (Finite 1) (Finite (1 / 2 ^ 30)) (Suc (Suc (Suc 0)))
      = (Finite 5, Finite (13 / 2 ^ 30))"
    by (simp add: dsub_def exact rounded)
  then have "modulus2_double (Finite 1) (Finite (1 / 2 ^ 30)) (Suc (Suc (Suc 0))) = Finite 25"
    by (simp only: modulus2_double_def) (simp add: exact rounded)
  then show "escaped_double (Finite 1) (Finite (1 / 2 ^ 30)) 3"
    by (simp only: escaped_double_def numeral_3_eq_3) simp
qed

text \<open>The run of the evaluator at \<open>c = -0.25\<close>, which the cardioid test captures.\<close>

lemma center_double: "mandelbrotEscape_double (Finite (- 0.25)) (Finite 0) 100 = 100"
proof -
  note exact = to_double_dyadic [of "- 1" 1, simplified] to_double_dyadic [of 1 2, simplified]
    to_double_dyadic [of "- 1" 2, simplified] to_double_dyadic [of "- 1" 4, simplified]
  have "in_cardioid_double (Finite (- 0.25)) (Finite 0)"
    by (simp add: in_cardioid_double_def Let_def dsub_def exact)
  then show ?thesis by (simp add: mandelbrotEscape_double_def)
qed

section \<open>Conjugation over the reals\<close>

declare escape_loop.simps [simp del]

lemma escape_loop_conj: "escape_loop cx (- cy) m zx (- zy) n = escape_loop cx cy m zx zy n"
proof (induction cx cy m zx zy n rule: escape_loop.induct)
  case (1 cx cy max_iter zx zy n)
  show ?case
  proof (cases "zx * zx + zy * zy \<le> 4 \<and> n + 1 < max_iter")
    case True
    have "escape_loop cx (- cy) max_iter (zx * zx - zy * zy + cx) (- (2 * zx * zy + cy)) (n + 1)
          = escape_loop cx cy max_iter (zx * zx - zy * zy + cx) (2 * zx * zy + cy) (n + 1)"
      using "1.IH" [OF refl refl refl refl refl] True by simp
    then show ?thesis
      using True
      by (subst escape_loop.simps, subst (2) escape_loop.simps) (simp add: Let_def)
  next
    case False
    then show ?thesis
      by (subst escape_loop.simps, subst (2) escape_loop.simps) (auto simp add: Let_def)
  qed
qed

section \<open>Properties of the escape-time evaluator\<close>

text \<open>
  Claim C3, as amended. For every pair of doubles \<open>(cx, cy)\<close> and every cap
  \<open>max_iter \<ge> 1\<close> the result of \<open>mandelbrotEscape\<close> lies in \<open>[0, max_iter]\<close>,
  and it is 0 exactly when the sum \<open>cx * cx + cy * cy\<close>, as the program computes
  it in binary64 arithmetic (each product and the sum rounded to nearest),
  compares greater than \<open>4.0\<close>: no point whose computed sum exceeds \<open>4.0\<close>
  passes the cardioid or the bulb test as the program computes them, and the
  iterative branch returns at least 1.
\<close>

theorem mandelbrotEscape_double_range_zero:
  assumes "is_double cx" and "is_double cy" and "1 \<le> max_iter"
  shows "0 \<le> mandelbrotEscape_double cx cy max_iter \<and>
     mandelbrotEscape_double cx cy max_iter \<le> max_iter \<and>
     (mandelbrotEscape_double cx cy max_iter = 0
        \<longleftrightarrow> dgt (dadd (dmul cx cx) (dmul cy cy)) (Finite 4.0)) \<and>
     (dgt (dadd (dmul cx cx) (dmul cy cy)) (Finite 4.0)
        \<longrightarrow> \<not> in_cardioid_double cx cy \<and> \<not> in_bulb_double cx cy) \<and>
     1 \<le> escape_loop_double cx cy max_iter (Finite 0) (Finite 0) 0"
proof -
  have b: "1 \<le> escape_loop_double cx cy max_iter (Finite 0) (Finite 0) 0 \<and>
      escape_loop_double cx cy max_iter (Finite 0) (Finite 0) 0 \<le> max_iter"
    using escape_loop_double_bounds [of 0 cx cy max_iter "Finite 0" "Finite 0"] assms(3) by simp
  have c: "outside_disc_double cx cy \<Longrightarrow> \<not> in_cardioid_double cx cy"
    using assms(2) by (rule outside_not_cardioid)
  have d: "outside_disc_double cx cy \<Longrightarrow> \<not> in_bulb_double cx cy"
    by (rule outside_not_bulb)
  show ?thesis
    using assms(3) b c d by (auto simp add: mandelbrotEscape_double_def outside_disc_double_def)
qed

theorem mandelbrotEscape_double_range_zero_witness:
  "is_double (Finite 3) \<and> is_double (Finite 0) \<and> (1::int) \<le> 100 \<and>
   mandelbrotEscape_double (Finite 3) (Finite 0) 100 = 0 \<and>
   dgt (dadd (dmul (Finite 3) (Finite 3)) (dmul (Finite 0) (Finite 0))) (Finite 4.0)"
proof -
  have 1: "is_double (Finite 3)" using is_double_dyadic [of 3 0] by simp
  have 2: "is_double (Finite 0)" using is_double_dyadic [of 0 0] by simp
  have 3: "dgt (dadd (dmul (Finite 3) (Finite 3)) (dmul (Finite 0) (Finite 0))) (Finite 4.0)"
    using to_double_int [of 9] by (simp add: dgt_def)
  show ?thesis
    using mandelbrotEscape_double_range_zero [OF 1 2, of 100] 1 2 3 by simp
qed

text \<open>
  Claim C3 as stated, with \<open>cx\<^sup>2 + cy\<^sup>2\<close> the sum of the squares over the
  reals, fails. For the doubles \<open>cx = 2\<close> and \<open>cy = 2\<^sup>-\<^sup>2\<^sup>6\<close> the sum of the
  squares is \<open>4 + 2\<^sup>-\<^sup>5\<^sup>2\<close>, greater than \<open>4.0\<close>; the program's sum rounds to
  \<open>4.0\<close>, the test \<open>> 4.0\<close> fails, and the iterative branch returns 3, not 0.
\<close>

theorem mandelbrotEscape_double_zero_counterexample:
  "is_double (Finite 2) \<and> is_double (Finite (1 / 2 ^ 26)) \<and>
   (2::real) * 2 + 1 / 2 ^ 26 * (1 / 2 ^ 26) > 4.0 \<and>
   mandelbrotEscape_double (Finite 2) (Finite (1 / 2 ^ 26)) 100 = 3 \<and>
   mandelbrotEscape_double (Finite 2) (Finite (1 / 2 ^ 26)) 100 \<noteq> 0"
proof -
  have "is_double (Finite 2)" using is_double_dyadic [of 2 0] by simp
  moreover have "is_double (Finite (1 / 2 ^ 26))" using is_double_dyadic [of 1 26] by simp
  moreover have "mandelbrotEscape_double (Finite 2) (Finite (1 / 2 ^ 26)) 100 = 3"
    by (simp only: mandelbrotEscape_double_def near_two_tests near_two_loop if_False)
  ultimately show ?thesis by simp
qed

text \<open>
  Claim C2, as amended. For every \<open>c\<close> that the cardioid, bulb and exterior
  tests, as the program computes them in binary64 arithmetic, do not
  short-circuit, and every cap \<open>max_iter \<ge> 1\<close>, the iterative branch returns
  \<open>min (n\<^sup>* + 1) max_iter\<close>, where \<open>n\<^sup>*\<close> is the least \<open>n \<ge> 1\<close> at which the loop's
  test \<open>|z\<^sub>n|\<^sup>2 \<le> 4.0\<close> fails for the orbit \<open>z\<^sub>0 = 0\<close>, \<open>z\<^sub>k\<^sub>+\<^sub>1 = z\<^sub>k\<^sup>2 + c\<close>
  computed with the loop's own binary64 operations, and \<open>max_iter\<close> when there
  is no such \<open>n\<close>. When neither coordinate of \<open>c\<close> is NaN the orbit stays a
  number or an infinity and \<open>n\<^sup>*\<close> is the least \<open>n \<ge> 1\<close> with computed
  \<open>|z\<^sub>n|\<^sup>2 > 4.0\<close>. The counter is incremented once per application of
  \<open>z \<leftarrow> z\<^sup>2 + c\<close> and the loop condition reads the squares taken before that
  application, so the loop stops one application after the orbit first leaves
  the disc, or when the counter reaches \<open>max_iter\<close>.
\<close>

theorem mandelbrotEscape_double_iterative_count:
  assumes "\<not> in_cardioid_double cx cy" and "\<not> in_bulb_double cx cy"
    and "\<not> outside_disc_double cx cy" and "1 \<le> max_iter"
  shows "mandelbrotEscape_double cx cy max_iter =
     (if \<exists>k. 1 \<le> k \<and> escaped_double cx cy k
      then min (int (LEAST k. 1 \<le> k \<and> escaped_double cx cy k) + 1) max_iter
      else max_iter) \<and>
     (cx \<noteq> NaN \<and> cy \<noteq> NaN \<longrightarrow>
        mandelbrotEscape_double cx cy max_iter =
          (if \<exists>k. 1 \<le> k \<and> exceeds_double cx cy k
           then min (int (LEAST k. 1 \<le> k \<and> exceeds_double cx cy k) + 1) max_iter
           else max_iter))"
proof -
  have a: "mandelbrotEscape_double cx cy max_iter =
     (if \<exists>k. 1 \<le> k \<and> escaped_double cx cy k
      then min (int (LEAST k. 1 \<le> k \<and> escaped_double cx cy k) + 1) max_iter
      else max_iter)"
    using assms escape_loop_double_from_zero [of max_iter cx cy]
    by (simp only: mandelbrotEscape_double_def if_False)
  show ?thesis using a first_escape_exceeds [OF _ _ assms(3), of max_iter] by simp
qed

theorem mandelbrotEscape_double_iterative_count_witness:
  "\<not> in_cardioid_double (Finite 1) (Finite (1 / 2 ^ 30)) \<and>
   \<not> in_bulb_double (Finite 1) (Finite (1 / 2 ^ 30)) \<and>
   \<not> outside_disc_double (Finite 1) (Finite (1 / 2 ^ 30)) \<and> (1::int) \<le> 100 \<and>
   mandelbrotEscape_double (Finite 1) (Finite (1 / 2 ^ 30)) 100 = 4 \<and>
   mandelbrotEscape_double (Finite 1) (Finite (1 / 2 ^ 30)) 100
     = min (int (LEAST k. 1 \<le> k \<and> escaped_double (Finite 1) (Finite (1 / 2 ^ 30)) k) + 1) 100"
proof -
  have e: "\<exists>k. 1 \<le> k \<and> escaped_double (Finite 1) (Finite (1 / 2 ^ 30)) k"
    using near_one(5) by (intro exI [of _ 3]) simp
  have v: "mandelbrotEscape_double (Finite 1) (Finite (1 / 2 ^ 30)) 100 = 4"
    by (simp only: mandelbrotEscape_double_def near_one if_False)
  have "mandelbrotEscape_double (Finite 1) (Finite (1 / 2 ^ 30)) 100
     = min (int (LEAST k. 1 \<le> k \<and> escaped_double (Finite 1) (Finite (1 / 2 ^ 30)) k) + 1) 100"
    using mandelbrotEscape_double_iterative_count [OF near_one(1-3), of 100] e by simp
  then show ?thesis using near_one(1-3) v by simp
qed

text \<open>
  Claim C2 as stated, with \<open>min n\<^sup>* max_iter\<close>, fails. For \<open>c = 1 + i\<close> every
  operation of the run is exact: \<open>|z\<^sub>1|\<^sup>2 = 2\<close> and \<open>|z\<^sub>2|\<^sup>2 = 10\<close>, so
  \<open>n\<^sup>* = 2\<close>, and the program returns 3.
\<close>

theorem mandelbrotEscape_double_iterative_count_counterexample:
  "\<not> in_cardioid_double (Finite 1) (Finite 1) \<and> \<not> in_bulb_double (Finite 1) (Finite 1) \<and>
   \<not> outside_disc_double (Finite 1) (Finite 1) \<and>
   \<not> exceeds_double (Finite 1) (Finite 1) 1 \<and> exceeds_double (Finite 1) (Finite 1) 2 \<and>
   mandelbrotEscape_double (Finite 1) (Finite 1) 100 = 3 \<and>
   mandelbrotEscape_double (Finite 1) (Finite 1) 100 \<noteq> min 2 100"
proof -
  have "mandelbrotEscape_double (Finite 1) (Finite 1) 100 = 3"
    by (simp only: mandelbrotEscape_double_def one_plus_i if_False)
  moreover have "modulus2_double (Finite 1) (Finite 1) 1 = Finite 2"
    using to_double_int [of 1] to_double_int [of 2]
    by (simp only: modulus2_double_def one_plus_i(5)) simp
  then have "\<not> exceeds_double (Finite 1) (Finite 1) 1"
    by (simp only: exceeds_double_def dgt_def) simp
  moreover have "modulus2_double (Finite 1) (Finite 1) 2 = Finite 10"
    using to_double_int [of 1] to_double_int [of 9] to_double_int [of 10]
    by (simp only: modulus2_double_def one_plus_i(6)) simp
  then have "exceeds_double (Finite 1) (Finite 1) 2"
    by (simp only: exceeds_double_def dgt_def) simp
  ultimately show ?thesis using one_plus_i(1-3) by simp
qed

text \<open>
  Claim C6. The escape count of a point and of its complex conjugate are
  equal, for every iteration cap: over the reals, and in binary64 arithmetic,
  where negation is exact and rounding commutes with it.
\<close>

theorem mandelbrotEscape_conjugate:
  "mandelbrotEscape cx (- cy) m = mandelbrotEscape cx cy m \<and>
   mandelbrotEscape_double dx (dneg dy) m = mandelbrotEscape_double dx dy m"
  using escape_loop_conj [of cx cy m 0 0] mandelbrotEscape_double_conj [of dx dy m]
  by (simp add: mandelbrotEscape_def in_cardioid_def in_bulb_def outside_disc_def)

section \<open>Properties of the viewport updates\<close>



text \<open>
  Claim C1 as stated fails with the cursor in the top-left corner of the
  default 900 by 900 view: the pixel column 0 maps to \<open>-2\<close> before a wheel
  step and to \<open>-3.4\<close> after it.
\<close>

theorem zoom_cursor_counterexample:
  "pixel_real default_viewport 900 0 = - 2 \<and>
   pixel_real (zoom default_viewport 900 900 0 0 1) 900 0 = - 3.4 \<and>
   pixel_real (zoom default_viewport 900 900 0 0 1) 900 0 \<noteq> pixel_real default_viewport 900 0"
  by (simp add: zoom_def pixel_real_def pixel_imag_def default_viewport_def Let_def)

lemma zoom_real_axis:
  assumes "wheel \<noteq> 0"
  shows "Re_min (zoom vp w h mx my wheel)
           = pixel_real vp w mx - (Re_max vp - Re_min vp) * (if wheel > 0 then 0.8 else 1.25) / 2"
    and "Re_max (zoom vp w h mx my wheel)
           = pixel_real vp w mx + (Re_max vp - Re_min vp) * (if wheel > 0 then 0.8 else 1.25) / 2"
  using assms by (simp_all add: zoom_def Let_def)

lemma zoom_imag_axis:
  assumes "wheel \<noteq> 0"
  shows "Im_min (zoom vp w h mx my wheel)
           = pixel_imag vp h my - (Im_max vp - Im_min vp) * (if wheel > 0 then 0.8 else 1.25) / 2"
    and "Im_max (zoom vp w h mx my wheel)
           = pixel_imag vp h my + (Im_max vp - Im_min vp) * (if wheel > 0 then 0.8 else 1.25) / 2"
  using assms by (simp_all add: zoom_def Let_def)

lemma zoom_cursor_real:
  assumes "wheel \<noteq> 0" and "0 < w"
  shows "pixel_real (zoom vp w h mx my wheel) w mx - pixel_real vp w mx
         = (mx / real_of_int w - 1 / 2) * ((Re_max vp - Re_min vp) * (if wheel > 0 then 0.8 else 1.25))"
  unfolding pixel_real_def [of "zoom vp w h mx my wheel"] zoom_real_axis [OF assms(1)]
  using assms(2) by (cases "wheel > 0") (simp_all add: field_simps)

lemma zoom_cursor_imag:
  assumes "wheel \<noteq> 0" and "0 < h"
  shows "pixel_imag (zoom vp w h mx my wheel) h my - pixel_imag vp h my
         = (1 / 2 - my / real_of_int h) * ((Im_max vp - Im_min vp) * (if wheel > 0 then 0.8 else 1.25))"
  unfolding pixel_imag_def [of "zoom vp w h mx my wheel"] zoom_imag_axis [OF assms(1)]
  using assms(2) by (cases "wheel > 0") (simp_all add: field_simps)

text \<open>
  Claim C1, as amended. A wheel step makes the coordinate under the cursor the
  centre of the new bounds, which is where the middle of the raster maps. The
  cursor pixel keeps its coordinate when the cursor is in the middle of the
  raster and, on each axis whose range is not empty, only then.
\<close>

theorem zoom_recentres_on_cursor:
  assumes "0 < w" and "0 < h" and "wheel \<noteq> 0"
  shows "(Re_min (zoom vp w h mx my wheel) + Re_max (zoom vp w h mx my wheel)) / 2
           = pixel_real vp w mx \<and>
         (Im_min (zoom vp w h mx my wheel) + Im_max (zoom vp w h mx my wheel)) / 2
           = pixel_imag vp h my \<and>
         pixel_real (zoom vp w h mx my wheel) w (real_of_int w / 2) = pixel_real vp w mx \<and>
         pixel_imag (zoom vp w h mx my wheel) h (real_of_int h / 2) = pixel_imag vp h my \<and>
         (mx = real_of_int w / 2 \<longrightarrow>
            pixel_real (zoom vp w h mx my wheel) w mx = pixel_real vp w mx) \<and>
         (my = real_of_int h / 2 \<longrightarrow>
            pixel_imag (zoom vp w h mx my wheel) h my = pixel_imag vp h my) \<and>
         (Re_min vp < Re_max vp \<longrightarrow>
            (pixel_real (zoom vp w h mx my wheel) w mx = pixel_real vp w mx
               \<longleftrightarrow> mx = real_of_int w / 2)) \<and>
         (Im_min vp < Im_max vp \<longrightarrow>
            (pixel_imag (zoom vp w h mx my wheel) h my = pixel_imag vp h my
               \<longleftrightarrow> my = real_of_int h / 2))"
proof -
  let ?z = "zoom vp w h mx my wheel"
  let ?f = "if wheel > 0 then 0.8 else 1.25 :: real"
  have f: "0 < ?f" by simp
  have c1: "(Re_min ?z + Re_max ?z) / 2 = pixel_real vp w mx"
    by (simp add: zoom_real_axis [OF assms(3)])
  have c2: "(Im_min ?z + Im_max ?z) / 2 = pixel_imag vp h my"
    by (simp add: zoom_imag_axis [OF assms(3)])
  have c3: "pixel_real ?z w (real_of_int w / 2) = pixel_real vp w mx"
    unfolding pixel_real_def [of ?z] zoom_real_axis [OF assms(3)]
    using assms(1) by (cases "wheel > 0") (simp_all add: field_simps)
  have c4: "pixel_imag ?z h (real_of_int h / 2) = pixel_imag vp h my"
    unfolding pixel_imag_def [of ?z] zoom_imag_axis [OF assms(3)]
    using assms(2) by (cases "wheel > 0") (simp_all add: field_simps)
  have dr: "pixel_real ?z w mx - pixel_real vp w mx
         = (mx / real_of_int w - 1 / 2) * ((Re_max vp - Re_min vp) * ?f)"
    by (rule zoom_cursor_real [OF assms(3) assms(1)])
  have di: "pixel_imag ?z h my - pixel_imag vp h my
         = (1 / 2 - my / real_of_int h) * ((Im_max vp - Im_min vp) * ?f)"
    by (rule zoom_cursor_imag [OF assms(3) assms(2)])
  have c5: "mx = real_of_int w / 2 \<longrightarrow> pixel_real ?z w mx = pixel_real vp w mx"
    using c3 by metis
  have c6: "my = real_of_int h / 2 \<longrightarrow> pixel_imag ?z h my = pixel_imag vp h my"
    using c4 by metis
  have c7: "pixel_real ?z w mx = pixel_real vp w mx \<longleftrightarrow> mx = real_of_int w / 2"
    if "Re_min vp < Re_max vp"
  proof -
    have "(Re_max vp - Re_min vp) * ?f \<noteq> 0" using that f by auto
    then have "pixel_real ?z w mx - pixel_real vp w mx = 0 \<longleftrightarrow> mx / real_of_int w - 1 / 2 = 0"
      unfolding dr by (simp only: mult_eq_0_iff simp_thms)
    then show ?thesis using assms(1) by (simp add: field_simps)
  qed
  have c8: "pixel_imag ?z h my = pixel_imag vp h my \<longleftrightarrow> my = real_of_int h / 2"
    if "Im_min vp < Im_max vp"
  proof -
    have "(Im_max vp - Im_min vp) * ?f \<noteq> 0" using that f by auto
    then have "pixel_imag ?z h my - pixel_imag vp h my = 0 \<longleftrightarrow> 1 / 2 - my / real_of_int h = 0"
      unfolding di by (simp only: mult_eq_0_iff simp_thms)
    then show ?thesis using assms(2) by (auto simp add: field_simps)
  qed
  show ?thesis using c1 c2 c3 c4 c5 c6 c7 c8 by blast
qed

theorem zoom_recentres_on_cursor_witness:
  "(0::int) < 900 \<and> (1::real) \<noteq> 0 \<and>
   (Re_min (zoom default_viewport 900 900 0 0 1) + Re_max (zoom default_viewport 900 900 0 0 1)) / 2
     = pixel_real default_viewport 900 0 \<and>
   pixel_real (zoom default_viewport 900 900 450 450 1) 900 450
     = pixel_real default_viewport 900 450"
  using zoom_recentres_on_cursor [of 900 900 1 default_viewport 0 0]
    zoom_recentres_on_cursor [of 900 900 1 default_viewport 450 450]
  by simp

section \<open>The stores of one tile\<close>

declare RenderTile_xloop.simps [simp del]
declare RenderTile_yloop.simps [simp del]
declare spawn_loop.simps [simp del]

lemma run_writes_snoc: "run_writes buf (ws @ [w]) = store (run_writes buf ws) w"
  by (simp add: run_writes_def)

lemma run_writes_unwritten: "i \<notin> fst ` set ws \<Longrightarrow> run_writes buf ws i = buf i"
proof (induction ws rule: rev_induct)
  case Nil
  then show ?case by (simp add: run_writes_def)
next
  case (snoc w ws)
  then show ?case by (cases w) (auto simp add: run_writes_snoc)
qed

lemma run_writes_written:
  "distinct (map fst ws) \<Longrightarrow> (i, c) \<in> set ws \<Longrightarrow> run_writes buf ws i = c"
proof (induction ws rule: rev_induct)
  case Nil
  then show ?case by simp
next
  case (snoc w ws)
  obtain j d where w: "w = (j, d)" by (cases w)
  show ?case
  proof (cases "i = j")
    case True
    have "(i, c) \<notin> set ws" using snoc.prems(1) True w by (auto simp add: image_iff)
    then have "c = d" using snoc.prems(2) w by auto
    then show ?thesis using True w by (simp add: run_writes_snoc)
  next
    case False
    then have "(i, c) \<in> set ws" using snoc.prems(2) w by auto
    then have "run_writes buf ws i = c" using snoc.IH snoc.prems(1) by simp
    then show ?thesis using False w by (simp add: run_writes_snoc)
  qed
qed

lemma RenderTile_xloop_map:
  "RenderTile_xloop hsv width height vp endX y x =
     map (\<lambda>x. (y * width + x, pixel_color hsv width height vp x y)) [x..endX - 1]"
proof (induction hsv width height vp endX y x rule: RenderTile_xloop.induct)
  case (1 hsv width height vp endX y x)
  show ?case
  proof (cases "x < endX")
    case True
    then have "[x..endX - 1] = x # [x + 1..endX - 1]" by (simp add: upto_rec1)
    then show ?thesis using True "1.IH" by (subst RenderTile_xloop.simps) simp
  next
    case False
    then show ?thesis by (subst RenderTile_xloop.simps) simp
  qed
qed

lemma RenderTile_yloop_concat:
  "RenderTile_yloop hsv width height vp startX endX endY y =
     concat (map (\<lambda>y. RenderTile_xloop hsv width height vp endX y startX) [y..endY - 1])"
proof (induction hsv width height vp startX endX endY y rule: RenderTile_yloop.induct)
  case (1 hsv width height vp startX endX endY y)
  show ?case
  proof (cases "y < endY")
    case True
    then have "[y..endY - 1] = y # [y + 1..endY - 1]" by (simp add: upto_rec1)
    then show ?thesis using True "1.IH" by (subst RenderTile_yloop.simps) simp
  next
    case False
    then show ?thesis by (subst RenderTile_yloop.simps) simp
  qed
qed

lemma set_RenderTile:
  "set (RenderTile hsv tileX tileY width height vp) =
     {(y * width + x, pixel_color hsv width height vp x y) | x y. in_tile tileX tileY width height x y}"
proof -
  have "set (RenderTile hsv tileX tileY width height vp) =
     (\<Union>y \<in> {tileY * TILE_SIZE .. min (tileY * TILE_SIZE + TILE_SIZE) height - 1}.
        (\<lambda>x. (y * width + x, pixel_color hsv width height vp x y))
          ` {tileX * TILE_SIZE .. min (tileX * TILE_SIZE + TILE_SIZE) width - 1})"
    by (simp add: RenderTile_def Let_def RenderTile_yloop_concat RenderTile_xloop_map)
  also have "\<dots> = {(y * width + x, pixel_color hsv width height vp x y) | x y.
       in_tile tileX tileY width height x y}"
    unfolding in_tile_def by (rule set_eqI) (simp add: image_iff Bex_def, fastforce)
  finally show ?thesis .
qed

lemma written_RenderTile:
  "fst ` set (RenderTile hsv tileX tileY width height vp) =
     {y * width + x | x y. in_tile tileX tileY width height x y}"
  unfolding set_RenderTile by force

text \<open>
  Claim C10. For every tile, raster size, viewport and buffer, the offsets
  that \<open>RenderTile\<close> stores to are exactly the \<open>y * width + x\<close> of the pixels
  of its tile, and an entry of the buffer at any other offset is left as it
  was.
\<close>

theorem RenderTile_frame:
  "fst ` set (RenderTile hsv tileX tileY width height vp)
     = {y * width + x | x y. in_tile tileX tileY width height x y} \<and>
   (i \<notin> {y * width + x | x y. in_tile tileX tileY width height x y} \<longrightarrow>
      run_writes buf (RenderTile hsv tileX tileY width height vp) i = buf i)"
  using written_RenderTile [of hsv tileX tileY width height vp]
    run_writes_unwritten [of i "RenderTile hsv tileX tileY width height vp" buf]
  by simp

theorem RenderTile_frame_witness:
  "5 \<notin> {y * 2 + x | x y. in_tile 0 0 2 1 x y} \<and>
   run_writes (\<lambda>i. BLACK) (RenderTile (\<lambda>h s v. Color 0 0 0 0) 0 0 2 1 default_viewport) 5 = BLACK"
proof -
  have "5 \<notin> {y * 2 + x | x y. in_tile 0 0 2 1 x y}"
    by (auto simp add: in_tile_def TILE_SIZE_def)
  then show ?thesis
    using RenderTile_frame [of "\<lambda>h s v. Color 0 0 0 0" 0 0 2 1 default_viewport 5 "\<lambda>i. BLACK"]
    by simp
qed

section \<open>Termination of the workers\<close>

lemma filter_stride_gap:
  assumes "0 < W"
  shows "filter (\<lambda>i. (i - a) mod W = 0) [a + 1..b] = filter (\<lambda>i. (i - a) mod W = 0) [a + W..b]"
proof -
  have gap: "filter (\<lambda>i. (i - a) mod W = 0) [a + 1..c] = []" if "c < a + W" for c
  proof -
    have "(i - a) mod W \<noteq> 0" if "a + 1 \<le> i" "i \<le> c" for i
    proof -
      have "0 < i - a" "i - a < W" using that \<open>c < a + W\<close> by auto
      then show ?thesis by simp
    qed
    then show ?thesis by (auto simp add: filter_empty_conv)
  qed
  show ?thesis
  proof (cases "a + W \<le> b")
    case True
    have "[a + 1..b] = [a + 1..(a + W) - 1] @ [a + W..b]"
      using assms True by (intro upto_split1) auto
    then show ?thesis using gap [of "a + W - 1"] by simp
  next
    case False
    then show ?thesis using gap [of b] by simp
  qed
qed

lemma worker_loop_terminates:
  assumes "0 < numThreads"
  shows "worker_loop hsv w h vp tilesX totalTiles numThreads tileIdx =
     Some (concat (map (\<lambda>i. RenderTile hsv (i smod tilesX) (i sdiv tilesX) w h vp)
             (filter (\<lambda>i. (i - tileIdx) mod numThreads = 0) [tileIdx..totalTiles - 1])))"
proof (induction "nat (totalTiles - tileIdx)" arbitrary: tileIdx rule: less_induct)
  case less
  show ?case
  proof (cases "tileIdx < totalTiles")
    case True
    have "nat (totalTiles - (tileIdx + numThreads)) < nat (totalTiles - tileIdx)"
      using True assms by simp
    then have IH: "worker_loop hsv w h vp tilesX totalTiles numThreads (tileIdx + numThreads) =
       Some (concat (map (\<lambda>i. RenderTile hsv (i smod tilesX) (i sdiv tilesX) w h vp)
          (filter (\<lambda>i. (i - (tileIdx + numThreads)) mod numThreads = 0)
             [tileIdx + numThreads..totalTiles - 1])))"
      by (rule less)
    have same: "(\<lambda>i. (i - (tileIdx + numThreads)) mod numThreads = 0)
                = (\<lambda>i. (i - tileIdx) mod numThreads = 0)"
    proof
      fix i
      have "(i - (tileIdx + numThreads)) mod numThreads = (i - tileIdx - numThreads) mod numThreads"
        by (simp add: algebra_simps)
      also have "\<dots> = (i - tileIdx) mod numThreads" by simp
      finally show "((i - (tileIdx + numThreads)) mod numThreads = 0) = ((i - tileIdx) mod numThreads = 0)"
        by simp
    qed
    have "[tileIdx..totalTiles - 1] = tileIdx # [tileIdx + 1..totalTiles - 1]"
      using True by (simp add: upto_rec1)
    then have "filter (\<lambda>i. (i - tileIdx) mod numThreads = 0) [tileIdx..totalTiles - 1]
        = tileIdx # filter (\<lambda>i. (i - tileIdx) mod numThreads = 0) [tileIdx + numThreads..totalTiles - 1]"
      using filter_stride_gap [OF assms, of tileIdx "totalTiles - 1"] by simp
    then show ?thesis
      using True IH unfolding same
      by (subst worker_loop.simps) (simp add: Let_def)
  next
    case False
    then show ?thesis by (subst worker_loop.simps) simp
  qed
qed

lemma spawn_loop_map:
  "spawn_loop hsv w h vp tilesX totalTiles numThreads t =
     map (worker_loop hsv w h vp tilesX totalTiles numThreads) [t..numThreads - 1]"
proof (induction hsv w h vp tilesX totalTiles numThreads t rule: spawn_loop.induct)
  case (1 hsv w h vp tilesX totalTiles numThreads t)
  show ?case
  proof (cases "t < numThreads")
    case True
    then have "[t..numThreads - 1] = t # [t + 1..numThreads - 1]" by (simp add: upto_rec1)
    then show ?thesis using True "1.IH" by (subst spawn_loop.simps) simp
  next
    case False
    then show ?thesis by (subst spawn_loop.simps) simp
  qed
qed

lemma those_map_Some: "those (map (\<lambda>t. Some (f t)) ts) = Some (map f ts)"
  by (induction ts) simp_all

lemma thread_traces_eq:
  "thread_traces hsv w h vp numThreads =
     Some (map (\<lambda>t. concat (map (\<lambda>i. RenderTile hsv (i smod tile_count w) (i sdiv tile_count w) w h vp)
                  (worker_tiles (tile_count w * tile_count h) numThreads t)))
             [0..numThreads - 1])"
proof (cases "0 < numThreads")
  case True
  have "map (worker_loop hsv w h vp (tile_count w) (tile_count w * tile_count h) numThreads) [0..numThreads - 1]
      = map (\<lambda>t. Some (concat (map (\<lambda>i. RenderTile hsv (i smod tile_count w) (i sdiv tile_count w) w h vp)
                  (worker_tiles (tile_count w * tile_count h) numThreads t)))) [0..numThreads - 1]"
    by (rule map_cong [OF refl]) (simp add: worker_loop_terminates [OF True] worker_tiles_def)
  then show ?thesis
    unfolding thread_traces_def Let_def spawn_loop_map by (simp only: those_map_Some)
next
  case False
  then show ?thesis by (simp add: thread_traces_def Let_def spawn_loop_map)
qed

lemma thread_count:
  "\<exists>tss. thread_traces hsv w h vp numThreads = Some tss \<and> int (length tss) = max 0 numThreads"
  by (simp add: thread_traces_eq)

section \<open>Schedules\<close>

lemma mset_concat_update:
  assumes "t < length tss" and "tss ! t = w # ws"
  shows "mset (concat tss) = add_mset w (mset (concat (tss[t := ws])))"
proof -
  have "tss = take t tss @ (w # ws) # drop (Suc t) tss"
    using assms by (metis id_take_nth_drop)
  moreover have "tss[t := ws] = take t tss @ ws # drop (Suc t) tss"
    using assms(1) by (rule upd_conv_take_nth_drop)
  ultimately show ?thesis
    by (metis (no_types, lifting) concat.simps(2) concat_append mset.simps(2) union_mset_add_mset_right append_Cons mset_append)
qed

lemma interleave_mset:
  "interleave sched tss = Some s \<Longrightarrow> mset s = mset (concat tss)"
proof (induction sched arbitrary: tss s)
  case Nil
  then have "\<forall>ts \<in> set tss. ts = []" "s = []" by (auto split: if_splits)
  then show ?case by (simp add: concat_eq_Nil_conv)
next
  case (Cons t sched)
  from Cons.prems have t: "t < length tss" by (auto split: if_splits)
  from Cons.prems t obtain w ws s' where
    hd: "tss ! t = w # ws" and rest: "interleave sched (tss[t := ws]) = Some s'" and s: "s = w # s'"
    by (auto split: list.splits)
  have "mset s' = mset (concat (tss[t := ws]))" by (rule Cons.IH [OF rest])
  then show ?case using mset_concat_update [OF t hd] s by simp
qed

lemma interleave_exists: "\<exists>sched s. interleave sched tss = Some s"
proof (induction "length (concat tss)" arbitrary: tss rule: less_induct)
  case less
  show ?case
  proof (cases "\<forall>ts \<in> set tss. ts = []")
    case True
    then have "interleave [] tss = Some []" by simp
    then show ?thesis by blast
  next
    case False
    then obtain t where t: "t < length tss" and ne: "tss ! t \<noteq> []"
      by (metis in_set_conv_nth)
    then obtain w ws where hd: "tss ! t = w # ws" by (cases "tss ! t") auto
    have "mset (concat tss) = add_mset w (mset (concat (tss[t := ws])))"
      by (rule mset_concat_update [OF t hd])
    then have "size (mset (concat tss)) = Suc (size (mset (concat (tss[t := ws]))))" by simp
    then have "length (concat (tss[t := ws])) < length (concat tss)" by (simp only: size_mset)
    then obtain sched s where "interleave sched (tss[t := ws]) = Some s"
      using less by blast
    then have "interleave (t # sched) tss = Some (w # s)" using t hd by simp
    then show ?thesis by blast
  qed
qed

section \<open>Tile arithmetic\<close>

lemma div_64_eq: "(t * 64 \<le> x \<and> x < t * 64 + 64) = (t = x div (64::int))"
proof
  assume a: "t * 64 \<le> x \<and> x < t * 64 + 64"
  have "x div 64 = t"
    by (rule int_div_pos_eq [of x 64 t "x - t * 64"]) (use a in auto)
  then show "t = x div 64" by simp
next
  assume "t = x div 64"
  moreover have "x = 64 * (x div 64) + x mod 64" by simp
  moreover have "0 \<le> x mod 64" "x mod 64 < 64" by simp_all
  ultimately show "t * 64 \<le> x \<and> x < t * 64 + 64" by linarith
qed

lemma in_tile_iff:
  "in_tile tileX tileY width height x y \<longleftrightarrow>
     tileX = x div 64 \<and> tileY = y div 64 \<and> x < width \<and> y < height"
proof -
  have "in_tile tileX tileY width height x y \<longleftrightarrow>
     (tileX * 64 \<le> x \<and> x < tileX * 64 + 64) \<and> (tileY * 64 \<le> y \<and> y < tileY * 64 + 64)
       \<and> x < width \<and> y < height"
    unfolding in_tile_def TILE_SIZE_def by auto
  then show ?thesis unfolding div_64_eq by simp
qed

lemma div_less_of_less_mult:
  assumes "0 < (c::int)" and "0 \<le> b" and "a < b * c"
  shows "a div c < b"
proof (rule ccontr)
  assume "\<not> a div c < b"
  then have "b \<le> a div c" by simp
  then have "b * c \<le> (a div c) * c" using assms(1) by (intro mult_right_mono) simp_all
  moreover have "a = (a div c) * c + a mod c" by simp
  moreover have "0 \<le> a mod c" using assms(1) by simp
  ultimately show False using assms(3) by linarith
qed

lemma tile_count_pos: "0 < extent \<Longrightarrow> tile_count extent = (extent + 63) div 64"
  by (simp add: tile_count_def TILE_SIZE_def signed_divide_int_def sgn_if)

lemma tile_count_bounds:
  assumes "0 \<le> x" and "x < extent"
  shows "x div 64 < tile_count extent"
proof -
  have e: "0 < extent" using assms by simp
  have "x + 1 \<le> extent" using assms by simp
  then have "(x + 1 + 63) div 64 \<le> (extent + 63) div 64" by (intro zdiv_mono1) simp_all
  moreover have "(x + 1 * 64) div 64 = x div 64 + 1" by simp
  ultimately show ?thesis unfolding tile_count_pos [OF e] by simp
qed


lemma sdiv_nonneg: "0 \<le> a \<Longrightarrow> 0 < b \<Longrightarrow> a sdiv b = a div (b::int)"
  by (simp add: signed_divide_int_def sgn_if)

lemma smod_nonneg: "0 \<le> a \<Longrightarrow> 0 < b \<Longrightarrow> a smod b = a mod (b::int)"
  by (simp add: signed_modulo_int_def sgn_if)

lemma index_decode:
  assumes "0 \<le> x" and "x < w"
  shows "(y * w + x) div w = y" and "(y * w + x) mod w = (x::int)"
  using assms by simp_all

lemma linear_index_bounds:
  assumes "0 \<le> x" "x < w" "0 \<le> y" "y < (h::int)"
  shows "0 \<le> y * w + x" and "y * w + x < w * h"
proof -
  have w: "0 < w" using assms by simp
  show "0 \<le> y * w + x" using assms w by simp
  have "y + 1 \<le> h" using assms by simp
  then have "(y + 1) * w \<le> h * w" using w by (intro mult_right_mono) simp_all
  then show "y * w + x < w * h" using assms by (simp add: algebra_simps)
qed

lemma distinct_concat_tagged:
  "distinct ks \<Longrightarrow> (\<And>k. k \<in> set ks \<Longrightarrow> distinct (g k)) \<Longrightarrow>
   (\<And>k v. k \<in> set ks \<Longrightarrow> v \<in> set (g k) \<Longrightarrow> tag v = k) \<Longrightarrow>
   distinct (concat (map g ks))"
proof (induction ks)
  case Nil
  then show ?case by simp
next
  case (Cons k ks)
  have "distinct (concat (map g ks))"
    by (rule Cons.IH) (use Cons.prems in auto)
  moreover have "distinct (g k)" using Cons.prems(2) by simp
  moreover have "set (g k) \<inter> set (concat (map g ks)) = {}"
  proof (rule ccontr)
    assume "set (g k) \<inter> set (concat (map g ks)) \<noteq> {}"
    then obtain v k' where v: "v \<in> set (g k)" "k' \<in> set ks" "v \<in> set (g k')" by auto
    have "tag v = k" using Cons.prems(3) [of k v] v by simp
    moreover have "tag v = k'" using Cons.prems(3) [of k' v] v by simp
    ultimately show False using Cons.prems(1) v(2) by auto
  qed
  ultimately show ?case by simp
qed

lemma concat_map_concat:
  "concat (map (\<lambda>t. concat (map g (f t))) ts) = concat (map g (concat (map f ts)))"
  by (induction ts) simp_all

text \<open>All workers together visit every tile index once.\<close>

lemma worker_tiles_mod:
  assumes "0 < W" and "0 \<le> t" and "t < W" and "v \<in> set (worker_tiles T W t)"
  shows "v mod W = t" and "0 \<le> v" and "v < T"
proof -
  from assms(4) have m: "(v - t) mod W = 0" and r: "t \<le> v" "v \<le> T - 1"
    by (auto simp add: worker_tiles_def)
  from m have "v mod W = t mod W" by (simp add: mod_eq_dvd_iff mod_eq_0_iff_dvd)
  then show "v mod W = t" using assms by simp
  show "0 \<le> v" using r assms by simp
  show "v < T" using r by simp
qed

lemma all_worker_tiles:
  assumes "0 < W"
  shows "distinct (concat (map (worker_tiles T W) [0..W - 1]))"
    and "set (concat (map (worker_tiles T W) [0..W - 1])) = {0..T - 1}"
proof -
  show "distinct (concat (map (worker_tiles T W) [0..W - 1]))"
  proof (rule distinct_concat_tagged [where tag = "\<lambda>v. v mod W"])
    show "distinct [0..W - 1]" by simp
  next
    fix k show "distinct (worker_tiles T W k)" by (simp add: worker_tiles_def)
  next
    fix k v assume "k \<in> set [0..W - 1]" "v \<in> set (worker_tiles T W k)"
    then show "v mod W = k" using worker_tiles_mod(1) [OF assms, of k v T] by simp
  qed
  show "set (concat (map (worker_tiles T W) [0..W - 1])) = {0..T - 1}"
  proof (rule set_eqI)
    fix v
    show "v \<in> set (concat (map (worker_tiles T W) [0..W - 1])) \<longleftrightarrow> v \<in> {0..T - 1}"
    proof
      assume "v \<in> set (concat (map (worker_tiles T W) [0..W - 1]))"
      then obtain t where "0 \<le> t" "t < W" "v \<in> set (worker_tiles T W t)" by auto
      then show "v \<in> {0..T - 1}" using worker_tiles_mod(2,3) [OF assms, of t v T] by simp
    next
      assume v: "v \<in> {0..T - 1}"
      have "0 \<le> v mod W" "v mod W < W" using assms by simp_all
      moreover have "v mod W \<le> v" using v assms by (simp add: zmod_le_nonneg_dividend)
      moreover have "(v - v mod W) mod W = 0" by (simp add: minus_mod_eq_mult_div)
      ultimately have "v \<in> set (worker_tiles T W (v mod W))"
        using v by (simp add: worker_tiles_def)
      then show "v \<in> set (concat (map (worker_tiles T W) [0..W - 1]))"
        using \<open>0 \<le> v mod W\<close> \<open>v mod W < W\<close> by auto
    qed
  qed
qed

lemma tile_count_ceiling:
  assumes "0 < extent"
  shows "tile_count extent = \<lceil>real_of_int extent / real_of_int TILE_SIZE\<rceil>"
proof -
  define z where "z = (extent + 63) div 64"
  have "extent + 63 = 64 * z + (extent + 63) mod 64" by (simp add: z_def)
  moreover have "0 \<le> (extent + 63) mod 64" "(extent + 63) mod 64 < 64" by simp_all
  ultimately have b: "64 * z - 64 < extent" "extent \<le> 64 * z" by linarith+
  have "real_of_int (64 * z - 64) < real_of_int extent" using b(1) by (simp only: of_int_less_iff)
  then have 1: "real_of_int z - 1 < real_of_int extent / 64" by simp
  have "real_of_int extent \<le> real_of_int (64 * z)" using b(2) by (simp only: of_int_le_iff)
  then have 2: "real_of_int extent / 64 \<le> real_of_int z" by simp
  have "\<lceil>real_of_int extent / 64\<rceil> = z" by (rule ceiling_unique [OF 1 2])
  then show ?thesis using tile_count_pos [OF assms] by (simp add: z_def TILE_SIZE_def)
qed

section \<open>The stores of a whole pass\<close>

lemma map_fst_RenderTile:
  "map fst (RenderTile hsv tileX tileY w h vp) =
     concat (map (\<lambda>y. map (\<lambda>x. y * w + x)
                     [tileX * TILE_SIZE..min (tileX * TILE_SIZE + TILE_SIZE) w - 1])
             [tileY * TILE_SIZE..min (tileY * TILE_SIZE + TILE_SIZE) h - 1])"
  by (simp add: RenderTile_def Let_def RenderTile_yloop_concat RenderTile_xloop_map
      map_concat comp_def)

lemma distinct_RenderTile:
  assumes "0 \<le> tileX"
  shows "distinct (map fst (RenderTile hsv tileX tileY w h vp))"
  unfolding map_fst_RenderTile
proof (rule distinct_concat_tagged [where tag = "\<lambda>v. v div w"])
  show "distinct [tileY * TILE_SIZE..min (tileY * TILE_SIZE + TILE_SIZE) h - 1]" by simp
next
  fix y
  show "distinct (map (\<lambda>x. y * w + x) [tileX * TILE_SIZE..min (tileX * TILE_SIZE + TILE_SIZE) w - 1])"
    by (simp add: distinct_map inj_on_def)
next
  fix y v
  assume "v \<in> set (map (\<lambda>x. y * w + x) [tileX * TILE_SIZE..min (tileX * TILE_SIZE + TILE_SIZE) w - 1])"
  then have "v \<in> (\<lambda>x. y * w + x) ` {tileX * TILE_SIZE..min (tileX * TILE_SIZE + TILE_SIZE) w - 1}"
    by (simp only: set_map set_upto)
  then obtain x where v: "v = y * w + x"
    and xin: "x \<in> {tileX * TILE_SIZE..min (tileX * TILE_SIZE + TILE_SIZE) w - 1}"
    by (rule imageE)
  from xin have x: "tileX * TILE_SIZE \<le> x" "x < w" by simp_all
  have "0 \<le> x" using x(1) assms by (simp add: TILE_SIZE_def)
  then show "v div w = y" using v x(2) by simp
qed

lemma tile_write_decode:
  assumes k: "0 \<le> k" "k < tile_count w * tile_count h" and w: "0 < w"
    and m: "(v, c) \<in> set (RenderTile hsv (k smod tile_count w) (k sdiv tile_count w) w h vp)"
  shows "0 \<le> v mod w \<and> v mod w < w \<and> 0 \<le> v div w \<and> v div w < h \<and>
         v = (v div w) * w + v mod w \<and>
         c = pixel_color hsv w h vp (v mod w) (v div w) \<and>
         ((v div w) div 64) * tile_count w + (v mod w) div 64 = k"
proof -
  have tc: "0 < tile_count w" using tile_count_bounds [of 0 w] w by simp
  have sm: "k smod tile_count w = k mod tile_count w" and sd: "k sdiv tile_count w = k div tile_count w"
    using k(1) tc by (simp_all add: smod_nonneg sdiv_nonneg)
  from m obtain x y where v: "v = y * w + x" and c: "c = pixel_color hsv w h vp x y"
    and t: "in_tile (k mod tile_count w) (k div tile_count w) w h x y"
    unfolding sm sd set_RenderTile by auto
  from t have tx: "k mod tile_count w = x div 64" and ty: "k div tile_count w = y div 64"
    and xw: "x < w" and yh: "y < h"
    by (simp_all add: in_tile_iff)
  have "0 \<le> x div 64" using tx [symmetric] tc by simp
  then have x0: "0 \<le> x" by simp
  have "0 \<le> y div 64" using ty [symmetric] tc k(1) by (simp add: pos_imp_zdiv_nonneg_iff)
  then have y0: "0 \<le> y" by simp
  have d: "v div w = y" "v mod w = x" using v x0 xw by simp_all
  have "k = (k div tile_count w) * tile_count w + k mod tile_count w" by simp
  then have "(y div 64) * tile_count w + x div 64 = k" using tx ty by simp
  moreover have "v = (v div w) * w + v mod w" by simp
  ultimately show ?thesis using d c x0 xw y0 yh by (simp only: simp_thms)
qed

lemma pass_writes:
  fixes hsv :: "real \<Rightarrow> real \<Rightarrow> real \<Rightarrow> color" and vp :: viewport
  assumes w: "0 < w" and h: "0 < h"
    and ks: "distinct ks" "set ks = {0..tile_count w * tile_count h - 1}"
  defines "all \<equiv> concat (map (\<lambda>i. RenderTile hsv (i smod tile_count w) (i sdiv tile_count w) w h vp) ks)"
  shows "distinct (map fst all)"
    and "fst ` set all = {0..w * h - 1}"
    and "\<And>v c. (v, c) \<in> set all \<Longrightarrow> c = pixel_color hsv w h vp (v mod w) (v div w)"
proof -
  have tcw: "0 < tile_count w" using tile_count_bounds [of 0 w] w by simp
  have tch: "0 < tile_count h" using tile_count_bounds [of 0 h] h by simp
  have kr: "0 \<le> k \<and> k < tile_count w * tile_count h" if "k \<in> set ks" for k
    using that ks(2) by simp
  have "map fst all = concat (map (\<lambda>i. map fst (RenderTile hsv (i smod tile_count w) (i sdiv tile_count w) w h vp)) ks)"
    by (simp add: all_def map_concat comp_def)
  also have "distinct \<dots>"
  proof (rule distinct_concat_tagged [where tag = "\<lambda>v. ((v div w) div 64) * tile_count w + (v mod w) div 64"])
    show "distinct ks" by (rule ks(1))
  next
    fix k assume "k \<in> set ks"
    then have "0 \<le> k smod tile_count w" using kr [of k] tcw by (simp add: smod_nonneg)
    then show "distinct (map fst (RenderTile hsv (k smod tile_count w) (k sdiv tile_count w) w h vp))"
      by (rule distinct_RenderTile)
  next
    fix k v
    assume k: "k \<in> set ks"
      and "v \<in> set (map fst (RenderTile hsv (k smod tile_count w) (k sdiv tile_count w) w h vp))"
    then obtain c where "(v, c) \<in> set (RenderTile hsv (k smod tile_count w) (k sdiv tile_count w) w h vp)"
      by auto
    then show "((v div w) div 64) * tile_count w + (v mod w) div 64 = k"
      using tile_write_decode [of k w h v c hsv vp] kr [OF k] w by simp
  qed
  finally show "distinct (map fst all)" .
  show "c = pixel_color hsv w h vp (v mod w) (v div w)" if "(v, c) \<in> set all" for v c
  proof -
    from that obtain k where k: "k \<in> set ks"
      and "(v, c) \<in> set (RenderTile hsv (k smod tile_count w) (k sdiv tile_count w) w h vp)"
      by (auto simp add: all_def)
    then show ?thesis using tile_write_decode [of k w h v c hsv vp] kr [OF k] w by simp
  qed
  show "fst ` set all = {0..w * h - 1}"
  proof (rule set_eqI)
    fix v
    show "v \<in> fst ` set all \<longleftrightarrow> v \<in> {0..w * h - 1}"
    proof
      assume "v \<in> fst ` set all"
      then obtain c k where k: "k \<in> set ks"
        and m: "(v, c) \<in> set (RenderTile hsv (k smod tile_count w) (k sdiv tile_count w) w h vp)"
        by (auto simp add: all_def)
      have d: "0 \<le> v mod w \<and> v mod w < w \<and> 0 \<le> v div w \<and> v div w < h \<and> v = (v div w) * w + v mod w"
        using tile_write_decode [of k w h v c hsv vp] kr [OF k] w m by simp
      then have "0 \<le> (v div w) * w + v mod w" "(v div w) * w + v mod w < w * h"
        using linear_index_bounds [of "v mod w" w "v div w" h] by simp_all
      then show "v \<in> {0..w * h - 1}" by simp
    next
      assume v: "v \<in> {0..w * h - 1}"
      define x where "x = v mod w"
      define y where "y = v div w"
      have x: "0 \<le> x" "x < w" using w by (simp_all add: x_def)
      have y0: "0 \<le> y" using v w by (simp add: y_def pos_imp_zdiv_nonneg_iff)
      have "v < h * w" using v by (simp add: mult.commute)
      then have yh: "y < h" unfolding y_def using w h by (intro div_less_of_less_mult) simp_all
      have vxy: "v = y * w + x" by (simp add: x_def y_def)
      define k where "k = (y div 64) * tile_count w + x div 64"
      have tx: "0 \<le> x div 64" "x div 64 < tile_count w"
        using x tile_count_bounds [of x w] by simp_all
      have ty: "0 \<le> y div 64" "y div 64 < tile_count h"
        using y0 yh tile_count_bounds [of y h] by simp_all
      have kb: "0 \<le> k" "k < tile_count w * tile_count h"
        unfolding k_def using linear_index_bounds [OF tx ty] by simp_all
      then have kin: "k \<in> set ks" using ks(2) by simp
      have dk: "k div tile_count w = y div 64" "k mod tile_count w = x div 64"
        unfolding k_def using index_decode [OF tx] by simp_all
      have "in_tile (k smod tile_count w) (k sdiv tile_count w) w h x y"
        using kb(1) tcw dk x yh by (simp add: smod_nonneg sdiv_nonneg in_tile_iff)
      then have "(v, pixel_color hsv w h vp x y)
          \<in> set (RenderTile hsv (k smod tile_count w) (k sdiv tile_count w) w h vp)"
        unfolding set_RenderTile vxy by blast
      then have "(v, pixel_color hsv w h vp x y) \<in> set all"
        using kin by (auto simp add: all_def)
      then show "v \<in> fst ` set all" by force
    qed
  qed
qed

lemma render_trace_writes:
  assumes w: "0 < w" and h: "0 < h" and n: "0 < numThreads"
    and t: "render_trace hsv w h vp numThreads sched = Some ws"
  shows "distinct (map fst ws)"
    and "fst ` set ws = {0..w * h - 1}"
    and "\<And>v c. (v, c) \<in> set ws \<Longrightarrow> c = pixel_color hsv w h vp (v mod w) (v div w)"
proof -
  define ks where "ks = concat (map (worker_tiles (tile_count w * tile_count h) numThreads) [0..numThreads - 1])"
  define all where "all = concat (map (\<lambda>i. RenderTile hsv (i smod tile_count w) (i sdiv tile_count w) w h vp) ks)"
  define tss where "tss = map (\<lambda>t. concat (map (\<lambda>i. RenderTile hsv (i smod tile_count w) (i sdiv tile_count w) w h vp)
                  (worker_tiles (tile_count w * tile_count h) numThreads t))) [0..numThreads - 1]"
  have "interleave sched tss = Some ws"
    using t by (simp add: render_trace_def thread_traces_eq tss_def)
  then have "mset ws = mset (concat tss)" by (rule interleave_mset)
  also have "concat tss = all" unfolding tss_def all_def ks_def by (rule concat_map_concat)
  finally have m: "mset ws = mset all" .
  have ks: "distinct ks" "set ks = {0..tile_count w * tile_count h - 1}"
    unfolding ks_def by (rule all_worker_tiles [OF n])+
  have s: "set ws = set all" using m by (rule mset_eq_setD)
  have "mset (map fst ws) = mset (map fst all)" using m by (metis mset_map)
  then have "distinct (map fst ws) \<longleftrightarrow> distinct (map fst all)" by (rule mset_eq_imp_distinct_iff)
  then show "distinct (map fst ws)"
    using pass_writes(1) [OF w h ks, of hsv vp] by (simp add: all_def)
  show "fst ` set ws = {0..w * h - 1}"
    unfolding s all_def by (rule pass_writes(2) [OF w h ks])
  show "c = pixel_color hsv w h vp (v mod w) (v div w)" if "(v, c) \<in> set ws" for v c
    using that pass_writes(3) [OF w h ks, of v c hsv vp] by (simp add: s all_def)
qed

lemma render_pass_pixels:
  assumes w: "0 < w" and h: "0 < h" and n: "0 < numThreads"
    and p: "render_pass hsv w h vp numThreads sched buf = Some b"
  shows "b v = (if 0 \<le> v \<and> v < w * h then pixel_color hsv w h vp (v mod w) (v div w) else buf v)"
proof -
  from p obtain ws where t: "render_trace hsv w h vp numThreads sched = Some ws"
    and b: "b = run_writes buf ws"
    by (auto simp add: render_pass_def)
  note f = render_trace_writes [OF w h n t]
  show ?thesis
  proof (cases "0 \<le> v \<and> v < w * h")
    case True
    then have "v \<in> fst ` set ws" unfolding f(2) by simp
    then obtain c where c: "(v, c) \<in> set ws" by force
    have "run_writes buf ws v = c" by (rule run_writes_written [OF f(1) c])
    then show ?thesis using True f(3) [OF c] b by simp
  next
    case False
    then have "v \<notin> fst ` set ws" unfolding f(2) by auto
    then have "run_writes buf ws v = buf v" by (rule run_writes_unwritten)
    then show ?thesis using False b by auto
  qed
qed

lemma interleave_no_threads: "interleave sched [] = Some s \<Longrightarrow> s = []"
  by (cases sched) simp_all

lemma render_pass_no_threads:
  assumes "numThreads \<le> 0"
  shows "render_pass hsv w h vp numThreads [] buf = Some buf"
    and "render_pass hsv w h vp numThreads sched buf = Some b \<Longrightarrow> b = buf"
proof -
  have e: "thread_traces hsv w h vp numThreads = Some []"
    using assms by (simp add: thread_traces_eq)
  show "render_pass hsv w h vp numThreads [] buf = Some buf"
    by (simp add: render_pass_def render_trace_def e run_writes_def)
  show "b = buf" if "render_pass hsv w h vp numThreads sched buf = Some b"
  proof -
    from that obtain s where "interleave sched [] = Some s" and "b = run_writes buf s"
      by (auto simp add: render_pass_def render_trace_def e)
    then show ?thesis using interleave_no_threads [of sched s] by (simp add: run_writes_def)
  qed
qed

lemma render_pass_completes:
  "\<exists>sched b. render_pass hsv w h vp numThreads sched buf = Some b"
proof -
  obtain tss where "thread_traces hsv w h vp numThreads = Some tss"
    by (simp add: thread_traces_eq)
  moreover obtain sched s where "interleave sched tss = Some s"
    using interleave_exists by blast
  ultimately have "render_pass hsv w h vp numThreads sched buf = Some (run_writes buf s)"
    by (simp add: render_pass_def render_trace_def)
  then show ?thesis by blast
qed

section \<open>Coverage, determinism and the scenario\<close>

lemma small_tile_count: "tile_count 2 = 1" "tile_count 1 = 1"
  by (simp_all add: tile_count_def TILE_SIZE_def signed_divide_int_def)

lemma small_RenderTile:
  "RenderTile hsv 0 0 2 1 vp = [(0, pixel_color hsv 2 1 vp 0 0), (1, pixel_color hsv 2 1 vp 1 0)]"
  by (simp add: RenderTile_def TILE_SIZE_def RenderTile_yloop.simps RenderTile_xloop.simps)

lemma small_thread_traces:
  "thread_traces hsv 2 1 vp 2 =
     Some [[(0, pixel_color hsv 2 1 vp 0 0), (1, pixel_color hsv 2 1 vp 1 0)], []]"
  by (simp add: thread_traces_def small_tile_count spawn_loop.simps worker_loop.simps
      small_RenderTile signed_divide_int_def signed_modulo_int_def)

lemma small_render_trace:
  "render_trace hsv 2 1 vp 2 [0, 0] =
     Some [(0, pixel_color hsv 2 1 vp 0 0), (1, pixel_color hsv 2 1 vp 1 0)]"
  by (simp add: render_trace_def small_thread_traces)

lemma small_render_pass:
  "render_pass hsv 2 1 vp 2 [0, 0] buf =
     Some (run_writes buf [(0, pixel_color hsv 2 1 vp 0 0), (1, pixel_color hsv 2 1 vp 1 0)])"
  by (simp add: render_pass_def small_render_trace)

lemma unique_tile:
  assumes "0 < width" and "0 < height" and "0 \<le> x" and "x < width" and "0 \<le> y" and "y < height"
  shows "\<exists>!(tileX, tileY). 0 \<le> tileX \<and> tileX < tile_count width \<and>
            0 \<le> tileY \<and> tileY < tile_count height \<and> in_tile tileX tileY width height x y"
proof (rule ex1I [of _ "(x div 64, y div 64)"])
  show "case (x div 64, y div 64) of (tileX, tileY) \<Rightarrow> 0 \<le> tileX \<and> tileX < tile_count width \<and>
            0 \<le> tileY \<and> tileY < tile_count height \<and> in_tile tileX tileY width height x y"
    using assms tile_count_bounds [of x width] tile_count_bounds [of y height]
    by (simp add: in_tile_iff pos_imp_zdiv_nonneg_iff)
next
  fix t :: "int \<times> int"
  assume "case t of (tileX, tileY) \<Rightarrow> 0 \<le> tileX \<and> tileX < tile_count width \<and>
            0 \<le> tileY \<and> tileY < tile_count height \<and> in_tile tileX tileY width height x y"
  then show "t = (x div 64, y div 64)" by (cases t) (simp add: in_tile_iff)
qed

lemma tile_inside_raster:
  assumes "0 \<le> tileX" and "0 \<le> tileY" and "in_tile tileX tileY width height px py"
  shows "0 \<le> px \<and> px < width \<and> 0 \<le> py \<and> py < height"
  using assms by (auto simp add: in_tile_def TILE_SIZE_def)

text \<open>
  Claim C4. For a raster of positive width and height and at least one
  worker, every pixel of the raster lies in exactly one tile of the grid of
  \<open>tile_count width\<close> by \<open>tile_count height\<close> tiles (the ceilings of the
  extents over \<open>TILE_SIZE\<close>), every tile lies inside the raster, and in the
  stores of a complete pass, whatever the schedule of the workers, the offset
  of every pixel occurs exactly once and no other offset occurs.
\<close>

theorem tiles_cover_raster_once:
  assumes "0 < width" and "0 < height" and "1 \<le> numThreads"
    and "render_trace hsv width height vp numThreads sched = Some ws"
    and "0 \<le> x" and "x < width" and "0 \<le> y" and "y < height"
  shows "(\<exists>!(tileX, tileY). 0 \<le> tileX \<and> tileX < tile_count width \<and>
            0 \<le> tileY \<and> tileY < tile_count height \<and> in_tile tileX tileY width height x y) \<and>
         (\<forall>tileX tileY px py. 0 \<le> tileX \<and> 0 \<le> tileY \<and> in_tile tileX tileY width height px py
            \<longrightarrow> 0 \<le> px \<and> px < width \<and> 0 \<le> py \<and> py < height) \<and>
         count_list (map fst ws) (y * width + x) = 1 \<and>
         set (map fst ws) = {0..width * height - 1} \<and>
         tile_count width = \<lceil>real_of_int width / real_of_int TILE_SIZE\<rceil> \<and>
         tile_count height = \<lceil>real_of_int height / real_of_int TILE_SIZE\<rceil>"
proof -
  have n: "0 < numThreads" using assms(3) by simp
  note f = render_trace_writes [OF assms(1) assms(2) n assms(4)]
  have s: "set (map fst ws) = {0..width * height - 1}" using f(2) by simp
  have "y * width + x \<in> {0..width * height - 1}"
    using linear_index_bounds [OF assms(5-8)] by simp
  then have "y * width + x \<in> set (map fst ws)" unfolding s .
  then have c: "count_list (map fst ws) (y * width + x) = 1"
    using f(1) by (metis count_mset distinct_count_atmost_1)
  show ?thesis
    using unique_tile [OF assms(1,2,5-8)] tile_inside_raster c s
      tile_count_ceiling [OF assms(1)] tile_count_ceiling [OF assms(2)] by blast
qed

theorem tiles_cover_raster_once_witness:
  "(0::int) < 2 \<and> (0::int) < 1 \<and> (1::int) \<le> 2 \<and>
   render_trace (\<lambda>h s v. Color 0 0 0 0) 2 1 default_viewport 2 [0, 0] =
     Some [(0, pixel_color (\<lambda>h s v. Color 0 0 0 0) 2 1 default_viewport 0 0),
           (1, pixel_color (\<lambda>h s v. Color 0 0 0 0) 2 1 default_viewport 1 0)] \<and>
   count_list [0, 1 :: int] (0 * 2 + 1) = 1 \<and> set [0, 1 :: int] = {0..2 * 1 - 1}"
  using tiles_cover_raster_once [of 2 1 2 "\<lambda>h s v. Color 0 0 0 0" default_viewport "[0, 0]"
      "[(0, pixel_color (\<lambda>h s v. Color 0 0 0 0) 2 1 default_viewport 0 0),
        (1, pixel_color (\<lambda>h s v. Color 0 0 0 0) 2 1 default_viewport 1 0)]" 1 0]
  by (simp add: small_render_trace)

text \<open>
  Claim C7. Every pass ends under some schedule. A pass that follows a pass
  over the same viewport and raster leaves the buffer as the first one made
  it, and two passes from the same buffer agree, whatever the schedules. With
  at least one worker the colour of every pixel after the pass is a function
  of the viewport and the raster size only: it does not depend on the earlier
  contents of the buffer, on the number of workers or on the schedule.
\<close>

theorem render_pass_deterministic:
  assumes "0 < width" and "0 < height"
    and "render_pass hsv width height vp numThreads schedA buf = Some bufA"
    and "render_pass hsv width height vp numThreads schedB bufA = Some bufB"
    and "render_pass hsv width height vp numThreads schedC buf = Some bufC"
    and "render_pass hsv width height vp numThreads' schedD buf' = Some bufD"
  shows "bufB = bufA \<and> bufC = bufA \<and>
         (\<exists>sched b. render_pass hsv width height vp numThreads sched buf = Some b) \<and>
         (1 \<le> numThreads \<longrightarrow>
            (\<forall>v. 0 \<le> v \<and> v < width * height \<longrightarrow>
               bufA v = pixel_color hsv width height vp (v mod width) (v div width) \<and>
               (1 \<le> numThreads' \<longrightarrow> bufD v = bufA v)))"
proof (cases "0 < numThreads")
  case True
  note p = render_pass_pixels [OF assms(1) assms(2) True]
  have 1: "bufA v = (if 0 \<le> v \<and> v < width * height
        then pixel_color hsv width height vp (v mod width) (v div width) else buf v)" for v
    by (rule p [OF assms(3)])
  have 2: "bufB v = (if 0 \<le> v \<and> v < width * height
        then pixel_color hsv width height vp (v mod width) (v div width) else bufA v)" for v
    by (rule p [OF assms(4)])
  have 3: "bufC v = (if 0 \<le> v \<and> v < width * height
        then pixel_color hsv width height vp (v mod width) (v div width) else buf v)" for v
    by (rule p [OF assms(5)])
  have 4: "bufD v = pixel_color hsv width height vp (v mod width) (v div width)"
    if "1 \<le> numThreads'" "0 \<le> v \<and> v < width * height" for v
    using render_pass_pixels [OF assms(1) assms(2) _ assms(6), of v] that by simp
  have "bufB = bufA" by (rule ext) (simp add: 1 2)
  moreover have "bufC = bufA" by (rule ext) (simp add: 1 3)
  ultimately show ?thesis using 1 4 render_pass_completes [of hsv width height vp numThreads buf]
    by simp
next
  case False
  then have n: "numThreads \<le> 0" by simp
  have "bufA = buf" by (rule render_pass_no_threads(2) [OF n assms(3)])
  moreover have "bufB = bufA" by (rule render_pass_no_threads(2) [OF n assms(4)])
  moreover have "bufC = buf" by (rule render_pass_no_threads(2) [OF n assms(5)])
  ultimately show ?thesis
    using False render_pass_completes [of hsv width height vp numThreads buf] by simp
qed

lemma small_thread_traces1:
  "thread_traces hsv 2 1 vp 1 =
     Some [[(0, pixel_color hsv 2 1 vp 0 0), (1, pixel_color hsv 2 1 vp 1 0)]]"
  by (simp add: thread_traces_def small_tile_count spawn_loop.simps worker_loop.simps
      small_RenderTile signed_divide_int_def signed_modulo_int_def)

lemma small_render_pass1:
  "render_pass hsv 2 1 vp 1 [0, 0] buf =
     Some (run_writes buf [(0, pixel_color hsv 2 1 vp 0 0), (1, pixel_color hsv 2 1 vp 1 0)])"
  by (simp add: render_pass_def render_trace_def small_thread_traces1)

theorem render_pass_deterministic_witness:
  "(0::int) < 2 \<and> (0::int) < 1 \<and> (1::int) \<le> 2 \<and> (1::int) \<le> 1 \<and>
   render_pass (\<lambda>h s v. Color 0 0 0 0) 2 1 default_viewport 2 [0, 0] (\<lambda>i. BLACK) =
     Some (run_writes (\<lambda>i. BLACK)
        [(0, pixel_color (\<lambda>h s v. Color 0 0 0 0) 2 1 default_viewport 0 0),
         (1, pixel_color (\<lambda>h s v. Color 0 0 0 0) 2 1 default_viewport 1 0)]) \<and>
   render_pass (\<lambda>h s v. Color 0 0 0 0) 2 1 default_viewport 1 [0, 0] (\<lambda>i. Color 1 1 1 1) =
     Some (run_writes (\<lambda>i. Color 1 1 1 1)
        [(0, pixel_color (\<lambda>h s v. Color 0 0 0 0) 2 1 default_viewport 0 0),
         (1, pixel_color (\<lambda>h s v. Color 0 0 0 0) 2 1 default_viewport 1 0)]) \<and>
   run_writes (\<lambda>i. Color 1 1 1 1)
        [(0, pixel_color (\<lambda>h s v. Color 0 0 0 0) 2 1 default_viewport 0 0),
         (1, pixel_color (\<lambda>h s v. Color 0 0 0 0) 2 1 default_viewport 1 0)] 1
     = run_writes (\<lambda>i. BLACK)
        [(0, pixel_color (\<lambda>h s v. Color 0 0 0 0) 2 1 default_viewport 0 0),
         (1, pixel_color (\<lambda>h s v. Color 0 0 0 0) 2 1 default_viewport 1 0)] 1"
  using render_pass_deterministic [where width = 2 and height = 1
      and hsv = "\<lambda>h s v. Color 0 0 0 0" and vp = default_viewport and numThreads = 2
      and schedA = "[0, 0]" and schedB = "[0, 0]" and schedC = "[0, 0]" and schedD = "[0, 0]"
      and numThreads' = 1 and buf = "\<lambda>i. BLACK" and buf' = "\<lambda>i. Color 1 1 1 1"
      and bufA = "run_writes (\<lambda>i. BLACK)
        [(0, pixel_color (\<lambda>h s v. Color 0 0 0 0) 2 1 default_viewport 0 0),
         (1, pixel_color (\<lambda>h s v. Color 0 0 0 0) 2 1 default_viewport 1 0)]"
      and bufB = "run_writes (run_writes (\<lambda>i. BLACK)
        [(0, pixel_color (\<lambda>h s v. Color 0 0 0 0) 2 1 default_viewport 0 0),
         (1, pixel_color (\<lambda>h s v. Color 0 0 0 0) 2 1 default_viewport 1 0)])
        [(0, pixel_color (\<lambda>h s v. Color 0 0 0 0) 2 1 default_viewport 0 0),
         (1, pixel_color (\<lambda>h s v. Color 0 0 0 0) 2 1 default_viewport 1 0)]"
      and bufC = "run_writes (\<lambda>i. BLACK)
        [(0, pixel_color (\<lambda>h s v. Color 0 0 0 0) 2 1 default_viewport 0 0),
         (1, pixel_color (\<lambda>h s v. Color 0 0 0 0) 2 1 default_viewport 1 0)]"
      and bufD = "run_writes (\<lambda>i. Color 1 1 1 1)
        [(0, pixel_color (\<lambda>h s v. Color 0 0 0 0) 2 1 default_viewport 0 0),
         (1, pixel_color (\<lambda>h s v. Color 0 0 0 0) 2 1 default_viewport 1 0)]"]
  by (simp add: small_render_pass small_render_pass1 run_writes_def)

text \<open>
  Claim C8. Under the default viewport and the 900 by 900 raster the pixel
  \<open>(450, 450)\<close> maps to \<open>-0.25 + 0i\<close>, which passes the cardioid test, so
  the escape count is the cap 100, over the reals and in binary64 arithmetic,
  the pixel's colour is \<open>BLACK\<close>, and \<open>BLACK\<close> is what rendering its tile
  stores at offset \<open>450 * 900 + 450\<close>.
\<close>

theorem center_pixel_is_black:
  "pixel_real default_viewport WIDTH 450 = - 0.25 \<and>
   pixel_imag default_viewport HEIGHT 450 = 0 \<and>
   in_cardioid (- 0.25) 0 \<and>
   mandelbrotEscape (- 0.25) 0 MAX_ITER = 100 \<and>
   mandelbrotEscape_double (Finite (- 0.25)) (Finite 0) MAX_ITER = 100 \<and>
   pixel_color hsv WIDTH HEIGHT default_viewport 450 450 = BLACK \<and>
   run_writes buf (RenderTile hsv 7 7 WIDTH HEIGHT default_viewport) (450 * 900 + 450) = BLACK"
proof -
  have re: "pixel_real default_viewport WIDTH 450 = - 0.25"
    by (simp add: pixel_real_def default_viewport_def WIDTH_def)
  have im: "pixel_imag default_viewport HEIGHT 450 = 0"
    by (simp add: pixel_imag_def default_viewport_def HEIGHT_def)
  have ca: "in_cardioid (- 0.25) 0" by (simp add: in_cardioid_def)
  have es: "mandelbrotEscape (- 0.25) 0 MAX_ITER = 100"
    using ca by (simp add: mandelbrotEscape_def MAX_ITER_def)
  have ed: "mandelbrotEscape_double (Finite (- 0.25)) (Finite 0) MAX_ITER = 100"
    using center_double by (simp add: MAX_ITER_def)
  have "pixel_color hsv WIDTH HEIGHT default_viewport 450 450
      = (if mandelbrotEscape (- 0.25) 0 MAX_ITER = MAX_ITER then BLACK
         else hsv (real_of_int (trunc_to_int (255.0 * real_of_int (mandelbrotEscape (- 0.25) 0 MAX_ITER)
                / real_of_int MAX_ITER))) 0.5 1.2)"
    using re im by (simp add: pixel_color_def Let_def)
  then have pc: "pixel_color hsv WIDTH HEIGHT default_viewport 450 450 = BLACK"
    using es by (simp add: MAX_ITER_def)
  have "in_tile 7 7 WIDTH HEIGHT 450 450"
    by (simp add: in_tile_def TILE_SIZE_def WIDTH_def HEIGHT_def)
  then have "(450 * WIDTH + 450, pixel_color hsv WIDTH HEIGHT default_viewport 450 450)
      \<in> set (RenderTile hsv 7 7 WIDTH HEIGHT default_viewport)"
    unfolding set_RenderTile by blast
  then have "run_writes buf (RenderTile hsv 7 7 WIDTH HEIGHT default_viewport) (450 * WIDTH + 450)
      = pixel_color hsv WIDTH HEIGHT default_viewport 450 450"
    by (intro run_writes_written distinct_RenderTile) simp_all
  then have rt: "run_writes buf (RenderTile hsv 7 7 WIDTH HEIGHT default_viewport) (450 * 900 + 450) = BLACK"
    using pc by (simp add: WIDTH_def)
  show ?thesis using re im ca es ed pc rt by simp
qed

text \<open>
  Claim C5, on the code. The pass starts as many threads as the reported
  hardware parallelism, read as an \<open>int\<close>, and none when that is not
  positive. At the value 0 it starts no thread, renders no tile and leaves
  the buffer as it was.
\<close>

theorem render_pass_zero_parallelism:
  "(\<exists>tss. thread_traces hsv width height vp (numThreads_of hc) = Some tss \<and>
      int (length tss) = max 0 (sint hc)) \<and>
   numThreads_of 0 = 0 \<and>
   thread_traces hsv width height vp (numThreads_of 0) = Some [] \<and>
   render_pass hsv width height vp (numThreads_of 0) [] buf = Some buf"
  using render_pass_no_threads(1) [of "numThreads_of 0" hsv width height vp buf]
    thread_count [of hsv width height vp "numThreads_of hc"]
  by (simp add: numThreads_of_def thread_traces_eq)

end
